theory Spec2Isabelle
  imports Complex_Main "HOL-Library.Sublist"
begin

section \<open>Python strings\<close>

text \<open>
  A Python \<open>str\<close> is modelled as a HOL \<open>string\<close>; a \<open>char\<close> stands for the code point
  of the same number, so the model covers the texts whose code points are below 256.
  \<open>isspace\<close> is \<open>str.isspace\<close> on one character, which is also what \<open>\s\<close> matches in a
  \<open>str\<close> pattern: the code points 9 to 13, 28 to 32, 133 and 160 of that range.
\<close>

definition isspace :: "char \<Rightarrow> bool" where
  "isspace c = ((of_char c :: nat) \<in> {9, 10, 11, 12, 13, 28, 29, 30, 31, 32, 133, 160})"

text \<open>\<open>s.lstrip()\<close>, \<open>s.rstrip()\<close> and \<open>s.strip()\<close>: the whitespace at one end or at both is removed.\<close>

definition lstrip :: "string \<Rightarrow> string" where
  "lstrip s = dropWhile isspace s"

definition rstrip :: "string \<Rightarrow> string" where
  "rstrip s = rev (dropWhile isspace (rev s))"

definition strip :: "string \<Rightarrow> string" where
  "strip s = lstrip (rstrip s)"

text \<open>\<open>s.find(c)\<close>: the index of the first occurrence of \<open>c\<close>, or \<open>-1\<close>.\<close>

fun str_find :: "string \<Rightarrow> char \<Rightarrow> int" where
  "str_find [] c = - 1"
| "str_find (x # xs) c =
     (if x = c then 0
      else (let i = str_find xs c in if i = - 1 then - 1 else i + 1))"

text \<open>\<open>s[k:]\<close> for an index \<open>k\<close> that is not negative.\<close>

definition slice_from :: "string \<Rightarrow> int \<Rightarrow> string" where
  "slice_from s k = drop (nat k) s"

text \<open>
  Matching under \<open>re.IGNORECASE\<close>: the pattern of the source has ASCII letters only, and
  below code point 256 an ASCII letter matches its two cases and nothing else.
\<close>

definition ascii_lower :: "char \<Rightarrow> char" where
  "ascii_lower c =
     (if 65 \<le> (of_char c :: nat) \<and> (of_char c :: nat) \<le> 90
      then char_of ((of_char c :: nat) + 32) else c)"

fun imatch :: "string \<Rightarrow> string \<Rightarrow> bool" where
  "imatch [] t = True"
| "imatch (p # ps) [] = False"
| "imatch (p # ps) (c # cs) = (ascii_lower p = ascii_lower c \<and> imatch ps cs)"

text \<open>
  The alternatives of the pattern
  \<^verbatim>\<open>^(Here\'s a|Here is a|Sure,|Certainly,)\s*\<close>, in the order of the source.
\<close>

definition intro_phrases :: "string list" where
  "intro_phrases = [''Here's a'', ''Here is a'', ''Sure,'', ''Certainly,'']"

text \<open>
  \<open>re.sub(pattern, '', text, flags=re.IGNORECASE)\<close> for that pattern. The anchor \<open>^\<close>
  matches at index 0 only, every alternative is non-empty, so at most one match is
  replaced: the first alternative that matches at the start, and the longest run of
  whitespace after it.
\<close>

definition re_sub_intro :: "string \<Rightarrow> string" where
  "re_sub_intro text =
     (case List.find (\<lambda>p. imatch p text) intro_phrases of
        None \<Rightarrow> text
      | Some p \<Rightarrow> lstrip (slice_from text (int (length p))))"

text \<open>
  Lines 104 to 114 of \<open>generate_text\<close>, from the text of the first content element of the
  response to the returned string.
\<close>

definition clean_text :: "string \<Rightarrow> string" where
  "clean_text raw =
     (let text = strip raw;
          colon_index = str_find text CHR '':''
      in if colon_index \<noteq> - 1 then strip (slice_from text (colon_index + 1))
         else re_sub_intro text)"

text \<open>\<open>str(i)\<close> for an integer: its decimal digits, after a minus sign when it is negative.\<close>

definition digit_char :: "nat \<Rightarrow> char" where
  "digit_char d = char_of (48 + d)"

fun digits :: "nat \<Rightarrow> string" where
  "digits n = (if n < 10 then [digit_char n] else digits (n div 10) @ [digit_char (n mod 10)])"

definition str_int :: "int \<Rightarrow> string" where
  "str_int i = (if i < 0 then CHR ''-'' # digits (nat (- i)) else digits (nat i))"

text \<open>\<open>os.path.join(a, b)\<close> of \<open>posixpath\<close>, for two arguments.\<close>

definition os_path_join :: "string \<Rightarrow> string \<Rightarrow> string" where
  "os_path_join a b =
     (if b \<noteq> [] \<and> hd b = CHR ''/'' then b
      else if a = [] \<or> last a = CHR ''/'' then a @ b
      else a @ ''/'' @ b)"

text \<open>The parts of a path between its slashes: \<open>p.split('/')\<close>.\<close>

fun split_slash :: "string \<Rightarrow> string list" where
  "split_slash [] = [[]]"
| "split_slash (c # cs) =
     (if c = CHR ''/'' then [] # split_slash cs
      else (case split_slash cs of
              [] \<Rightarrow> [[c]]
            | x # xs \<Rightarrow> (c # x) # xs))"

text \<open>
  The folder that a list of parts leads to, in a file system without symbolic links: the
  names walked from the root (for a path that starts with a slash) or from the working
  folder. An empty part and \<open>.\<close> stay in place, \<open>..\<close> goes back by one name.
\<close>

fun resolve :: "bool \<Rightarrow> string list \<Rightarrow> string list \<Rightarrow> string list" where
  "resolve ab stack [] = stack"
| "resolve ab stack (c # cs) =
     (if c = [] \<or> c = ''.'' then resolve ab stack cs
      else if c = ''..'' then
        (if stack \<noteq> [] \<and> last stack \<noteq> ''..'' then resolve ab (butlast stack) cs
         else if ab then resolve ab stack cs
         else resolve ab (stack @ [c]) cs)
      else resolve ab (stack @ [c]) cs)"

type_synonym folder = "bool \<times> string list"

definition is_abs :: "string \<Rightarrow> bool" where
  "is_abs p = (p \<noteq> [] \<and> hd p = CHR ''/'')"

text \<open>The folder that holds the last part of a path: where a file of that path is created.\<close>

definition parent_folder :: "string \<Rightarrow> folder" where
  "parent_folder p = (is_abs p, resolve (is_abs p) [] (butlast (split_slash p)))"

text \<open>The folders on the way of a path, the one it names included: what \<open>os.makedirs\<close> creates.\<close>

definition folders_on :: "string \<Rightarrow> folder list" where
  "folders_on p =
     map (\<lambda>k. (is_abs p, resolve (is_abs p) [] (take k (split_slash p))))
       [1..<Suc (length (split_slash p))]"

section \<open>The generation service\<close>

datatype py_error =
    ServiceError | KeyError | IndexError | DecodeError
  | AttributeError | ValueError | ZeroDivisionError
  | FileNotFoundError | OSError

text \<open>
  A PIL image as \<open>Image.open\<close> returns it: its \<open>size\<close>, its pixel data, and whether that data
  stops short. \<open>Image.open\<close> reads the header only, so it opens a truncated image without
  exception; loading its pixels raises \<open>OSError\<close>.
\<close>

record image =
  img_width :: nat
  img_height :: nat
  img_data :: string
  truncated :: bool

record text_prompt =
  prompt_text :: string
  weight :: int

record image_request =
  text_prompts :: "text_prompt list"
  cfg_scale :: int
  seed :: int
  steps :: int
  samples :: int
  style_preset :: string

record text_request =
  anthropic_version :: string
  max_tokens :: int
  messages :: "(string \<times> string) list"

text \<open>A call of \<open>bedrock.invoke_model\<close>: the model id and the body.\<close>

datatype request =
    ImageRequest string image_request
  | TextRequest string text_request

text \<open>
  The JSON body of a response, with the two keys the source reads, each present or not.
  An artifact is what reading its \<open>base64\<close> field, decoding it and opening it as an image
  gives: the image, or the exception raised on the way. An element of \<open>content\<close> is its
  \<open>text\<close> field, when it has one.
\<close>

record response_body =
  artifacts :: "(py_error + image) list option"
  content :: "string option list option"

datatype log_entry =
    NoImageGenerated response_body
  | ErrorGeneratingImage py_error
  | ErrorGeneratingContent py_error
  | SkippingPage int
  | BusybookCreated string

section \<open>The PDF canvas\<close>

text \<open>
  The constants of reportlab: \<open>inch\<close> is 72 points and \<open>letter\<close> is 8.5 by 11 inches.
  Python's floats are taken as exact rationals.
\<close>

definition inch :: rat where
  "inch = 72"

definition letter :: "rat \<times> rat" where
  "letter = (612, 792)"

datatype color = Color rat rat rat rat | lightyellow | black

record para_style =
  style_name :: string
  parent :: string
  fontName :: string
  alignment :: "int option"
  textColor :: color
  fontSize :: rat

record para =
  para_text :: string
  para_style :: para_style

text \<open>
  The drawing calls of the source, with their arguments: \<open>DrawImage img x y w h mask\<close>,
  \<open>Rect x y w h fill stroke\<close>, \<open>DrawParagraph p x y\<close> for \<open>p.drawOn(canvas, x, y)\<close> and
  \<open>DrawString x y s\<close>.
\<close>

datatype draw_op =
    SetPageSize "rat \<times> rat"
  | DrawImage image rat rat rat rat bool
  | SetFillColor color
  | Rect rat rat rat rat bool bool
  | DrawParagraph para rat rat
  | DrawString rat rat string

text \<open>
  A canvas holds the drawing calls of the page being drawn and the pages sealed so far;
  \<open>showPage\<close> seals the current page.
\<close>

record canvas =
  filename :: string
  pagesize :: "rat \<times> rat"
  current :: "draw_op list"
  pages :: "draw_op list list"

definition Canvas :: "string \<Rightarrow> rat \<times> rat \<Rightarrow> canvas" where
  "Canvas path psize = \<lparr>filename = path, pagesize = psize, current = [], pages = []\<rparr>"

definition draw :: "canvas \<Rightarrow> draw_op \<Rightarrow> canvas" where
  "draw c op = c\<lparr>current := current c @ [op]\<rparr>"

definition showPage :: "canvas \<Rightarrow> canvas" where
  "showPage c = c\<lparr>pages := pages c @ [current c], current := []\<rparr>"

section \<open>The world of one run\<close>

text \<open>
  What is outside the program: the service, which answers the \<open>n\<close>-th call with a body or
  with an exception; the random generator, whose raw draw at the \<open>n\<close>-th call is
  \<open>entropy n\<close>; the paragraph engine of reportlab, which accepts a text as markup or
  not and gives the size a paragraph takes when wrapped to a width and height; and the
  operating system, which may refuse to create a folder or a file of a given path (a
  name it does not accept, a permission, a file standing where a folder is needed), with
  the exception it raises.
\<close>

record env =
  bedrock :: "nat \<Rightarrow> request \<Rightarrow> py_error + response_body"
  entropy :: "nat \<Rightarrow> nat"
  markup_ok :: "string \<Rightarrow> bool"
  wrap :: "para \<Rightarrow> rat \<Rightarrow> rat \<Rightarrow> rat \<times> rat"
  fs_refuses :: "string \<Rightarrow> py_error option"

text \<open>
  What the program changes: the number of service calls made, the image files written,
  the folders that exist, the PDF files written (path and pages), the log.
\<close>

record world =
  calls :: nat
  files :: "(string \<times> image) list"
  dirs :: "folder list"
  pdfs :: "(string \<times> draw_op list list) list"
  logged :: "log_entry list"

definition logger :: "world \<Rightarrow> log_entry \<Rightarrow> world" where
  "logger w e = w\<lparr>logged := logged w @ [e]\<rparr>"

text \<open>
  \<open>os.makedirs(p, exist_ok=True)\<close>: unless the system refuses, the folders on the way of
  \<open>p\<close> exist afterwards.
\<close>

definition makedirs :: "env \<Rightarrow> world \<Rightarrow> string \<Rightarrow> py_error + world" where
  "makedirs e w p =
     (case fs_refuses e p of
        Some err \<Rightarrow> Inl err
      | None \<Rightarrow> Inr (w\<lparr>dirs := dirs w @ folders_on p\<rparr>))"

text \<open>
  A folder exists when it was created, or when it is the root, the working folder or a
  folder above the working folder.
\<close>

definition folder_exists :: "world \<Rightarrow> folder \<Rightarrow> bool" where
  "folder_exists w f = (list_all (\<lambda>c. c = ''..'') (snd f) \<or> f \<in> set (dirs w))"

text \<open>
  Opening a file for writing raises \<open>FileNotFoundError\<close> when the folder that is to hold
  it does not exist, and what the system raises when it refuses the path.
\<close>

definition open_for_write :: "env \<Rightarrow> world \<Rightarrow> string \<Rightarrow> py_error option" where
  "open_for_write e w p =
     (if \<not> folder_exists w (parent_folder p) then Some FileNotFoundError
      else fs_refuses e p)"

text \<open>
  \<open>image.save(p)\<close> loads the pixels of the image, which raises on a truncated image, then
  opens the file and writes it.
\<close>

definition image_save :: "env \<Rightarrow> world \<Rightarrow> image \<Rightarrow> string \<Rightarrow> py_error + world" where
  "image_save e w img p =
     (if truncated img then Inl OSError
      else case open_for_write e w p of
             Some err \<Rightarrow> Inl err
           | None \<Rightarrow> Inr (w\<lparr>files := files w @ [(p, img)]\<rparr>))"

text \<open>
  \<open>canvas.save()\<close> seals a page that still has drawing calls, then opens the file and
  writes the document.
\<close>

definition save :: "env \<Rightarrow> canvas \<Rightarrow> world \<Rightarrow> py_error option \<times> canvas \<times> world" where
  "save e c w =
     (let c' = (if current c \<noteq> [] then showPage c else c)
      in case open_for_write e w (filename c') of
           Some err \<Rightarrow> (Some err, c', w)
         | None \<Rightarrow> (None, c', w\<lparr>pdfs := pdfs w @ [(filename c', pages c')]\<rparr>))"

text \<open>
  \<open>random.randint(a, b)\<close> gives an integer \<open>N\<close> with \<open>a \<le> N \<le> b\<close>; \<open>r\<close> is the raw draw
  it is computed from.
\<close>

definition randint :: "nat \<Rightarrow> int \<Rightarrow> int \<Rightarrow> int" where
  "randint r a b = a + int r mod (b - a + 1)"

section \<open>The asset requester\<close>

text \<open>The request body built by \<open>generate_image\<close> (lines 42 to 58), for a raw draw \<open>r\<close>.\<close>

definition image_request_body :: "string \<Rightarrow> string \<Rightarrow> string \<Rightarrow> nat \<Rightarrow> image_request" where
  "image_request_body prompt negative_prompt stylePreset r =
     \<lparr>text_prompts =
        [\<lparr>prompt_text = prompt, weight = 1\<rparr>,
         \<lparr>prompt_text = negative_prompt, weight = - 1\<rparr>],
      cfg_scale = 10,
      seed = randint r 0 4294967295,
      steps = 50,
      samples = 1,
      style_preset = stylePreset\<rparr>"

text \<open>
  \<open>generate_image\<close>: every exception raised between the call of the service and the
  opening of the image is caught, logged, and turned into \<open>None\<close>.
\<close>

definition generate_image ::
  "env \<Rightarrow> string \<Rightarrow> string \<Rightarrow> string \<Rightarrow> world \<Rightarrow> image option \<times> world" where
  "generate_image e prompt negative_prompt stylePreset w =
     (let model_id = ''stability.stable-diffusion-xl-v1'';
          request_body =
            image_request_body prompt negative_prompt stylePreset (entropy e (calls w));
          response = bedrock e (calls w) (ImageRequest model_id request_body);
          w1 = w\<lparr>calls := Suc (calls w)\<rparr>
      in case response of
           Inl err \<Rightarrow> (None, logger w1 (ErrorGeneratingImage err))
         | Inr response_body \<Rightarrow>
             (case artifacts response_body of
                None \<Rightarrow> (None, logger w1 (NoImageGenerated response_body))
              | Some [] \<Rightarrow> (None, logger w1 (NoImageGenerated response_body))
              | Some (a # _) \<Rightarrow>
                  (case a of
                     Inl err \<Rightarrow> (None, logger w1 (ErrorGeneratingImage err))
                   | Inr img \<Rightarrow> (Some img, w1))))"

text \<open>\<open>generate_text\<close>: every exception is caught, printed, and turned into \<open>None\<close>.\<close>

definition generate_text :: "env \<Rightarrow> string \<Rightarrow> world \<Rightarrow> string option \<times> world" where
  "generate_text e prompt w =
     (let body =
            \<lparr>anthropic_version = ''bedrock-2023-05-31'',
             max_tokens = 1000,
             messages =
               [(''user'',
                 ''You are a helpful assistant creating content for children's busy books. ''
                   @ prompt)]\<rparr>;
          response =
            bedrock e (calls w) (TextRequest ''anthropic.claude-3-haiku-20240307-v1:0'' body);
          w1 = w\<lparr>calls := Suc (calls w)\<rparr>
      in case response of
           Inl err \<Rightarrow> (None, logger w1 (ErrorGeneratingContent err))
         | Inr response_body \<Rightarrow>
             (case content response_body of
                None \<Rightarrow> (None, logger w1 (ErrorGeneratingContent KeyError))
              | Some [] \<Rightarrow> (None, logger w1 (ErrorGeneratingContent IndexError))
              | Some (None # _) \<Rightarrow> (None, logger w1 (ErrorGeneratingContent KeyError))
              | Some (Some t # _) \<Rightarrow> (Some (clean_text t), w1)))"

section \<open>The cover compositor\<close>

text \<open>The prompt of line 124.\<close>

definition cover_prompt :: "string \<Rightarrow> string" where
  "cover_prompt theme =
     ''A vibrant and colorful '' @ theme @ '' themed children's coloring book cover''"

text \<open>
  \<open>create_cover_page\<close>. The source catches nothing here: an exception of \<open>os.makedirs\<close> or
  of \<open>cover_image.save\<close> leaves the function before anything is drawn.
\<close>

definition create_cover_page ::
  "env \<Rightarrow> canvas \<Rightarrow> string \<Rightarrow> string \<Rightarrow> world \<Rightarrow> py_error option \<times> canvas \<times> world"
  where
  "create_cover_page e pdf_canvas theme output_folder w =
     (let (width, height) = letter;
          (cover_image, w1) =
            generate_image e (cover_prompt theme) ''blurry, distorted, texts, words, letters''
              ''digital-art'' w;
          theme_folder = os_path_join output_folder theme
      in case makedirs e w1 theme_folder of
           Inl err \<Rightarrow> (Some err, pdf_canvas, w1)
         | Inr w2 \<Rightarrow>
             (case (case cover_image of
                      Some img \<Rightarrow>
                        (let image_filename = theme @ ''_cover.png'';
                             image_path = os_path_join theme_folder image_filename
                         in case image_save e w2 img image_path of
                              Inl err \<Rightarrow> Inl err
                            | Inr w3 \<Rightarrow>
                                Inr (draw pdf_canvas (DrawImage img 0 0 width height False), w3))
                    | None \<Rightarrow> Inr (pdf_canvas, w2)) of
                Inl err \<Rightarrow> (Some err, pdf_canvas, w2)
              | Inr (c1, w3) \<Rightarrow>
                  (let c2 = draw c1 (SetFillColor (Color 1 1 1 (3 / 10)));
                       c3 = draw c2 (Rect 0 0 width height True False)
                   in (None, showPage c3, w3))))"

section \<open>The page compositor\<close>

definition header_style :: para_style where
  "header_style =
     \<lparr>style_name = ''Header'', parent = ''Heading2'', fontName = ''ComicSans'',
      alignment = Some 0, textColor = black, fontSize = 16\<rparr>"

definition text_style :: para_style where
  "text_style =
     \<lparr>style_name = ''BodyText'', parent = ''BodyText'', fontName = ''ComicSans'',
      alignment = None, textColor = black, fontSize = 12\<rparr>"

text \<open>
  \<open>Paragraph(text, style)\<close> of reportlab. The constructor splits its text into lines and
  parses it as markup: on \<open>None\<close> the split raises \<open>AttributeError\<close>, on a text that is not
  well-formed markup the parser raises \<open>ValueError\<close>.
\<close>

definition Paragraph :: "env \<Rightarrow> string option \<Rightarrow> para_style \<Rightarrow> py_error + para" where
  "Paragraph e text style =
     (case text of
        None \<Rightarrow> Inl AttributeError
      | Some s \<Rightarrow>
          if markup_ok e s then Inr \<lparr>para_text = s, para_style = style\<rparr>
          else Inl ValueError)"

text \<open>
  \<open>create_busybook_page\<close>. The source catches nothing here, so an exception leaves the
  function with the canvas as it is at that point: the division of line 152 raises on an
  image of width 0, the constructors of lines 163 and 164 raise as above.
\<close>

definition create_busybook_page ::
  "env \<Rightarrow> canvas \<Rightarrow> image \<Rightarrow> string option \<Rightarrow> int \<Rightarrow> py_error option \<times> canvas" where
  "create_busybook_page e pdf_canvas img text page_number =
     (let c1 = draw pdf_canvas (SetPageSize letter);
          (width, height) = letter
      in if img_width img = 0 then (Some ZeroDivisionError, c1)
         else
           let aspect = of_nat (img_height img) / of_nat (img_width img);
               display_width = width - 2 * inch;
               display_height = display_width * aspect;
               c2 = draw c1
                      (DrawImage img inch (height - display_height - inch)
                         display_width display_height True)
           in case Paragraph e (Some ''Fun Fact:'') header_style of
                Inl err \<Rightarrow> (Some err, c2)
              | Inr header \<Rightarrow>
                  (case Paragraph e text text_style of
                     Inl err \<Rightarrow> (Some err, c2)
                   | Inr fact_p \<Rightarrow>
                       (let available_width = width - (22 / 10) * inch;
                            header_height = snd (wrap e header available_width height);
                            fact_height = snd (wrap e fact_p available_width height);
                            total_height = header_height + fact_height + (3 / 10) * inch;
                            textbox_width = width - 2 * inch;
                            c3 = draw c2 (SetFillColor lightyellow);
                            c4 = draw c3 (Rect inch inch textbox_width total_height True True);
                            c5 = draw c4
                                   (DrawParagraph header ((11 / 10) * inch)
                                      (1 * inch + total_height - header_height));
                            c6 = draw c5
                                   (DrawParagraph fact_p ((11 / 10) * inch) ((11 / 10) * inch));
                            c7 = draw c6 (SetFillColor black);
                            c8 = draw c7
                                   (DrawString (width / 2) ((5 / 10) * inch)
                                      (''Page '' @ str_int page_number))
                        in (None, showPage c8))))"

section \<open>The book assembler\<close>

text \<open>The prompts of lines 205 to 207.\<close>

definition image_prompt :: "string \<Rightarrow> int \<Rightarrow> string" where
  "image_prompt theme page =
     ''Generate a simple clear with thick lines black and white line random drawing of ''
       @ theme @ '' movie suitable for a childrens coloring book, page ''
       @ str_int page @ ''.''"

definition negative_prompt :: string where
  "negative_prompt =
     ''blurry, blackout, distorted, shading, texts, words, color, details, realism, photorealistic, complex details''"

definition text_prompt :: "string \<Rightarrow> int \<Rightarrow> string" where
  "text_prompt theme page =
     ''Generate a unique short, random fun fact about '' @ theme
       @ '' for children aged 5-7, related to page '' @ str_int page
       @ '' of a coloring book. Keep it under 50 words.''"

text \<open>The body of the loop of \<open>generate_busybook\<close> (lines 205 to 219), for one page.\<close>

definition page_step ::
  "env \<Rightarrow> string \<Rightarrow> string \<Rightarrow> int \<Rightarrow> canvas \<times> world \<Rightarrow> py_error option \<times> canvas \<times> world"
  where
  "page_step e theme theme_folder page cw =
     (let (pdf_canvas, w) = cw;
          (image_opt, w1) =
            generate_image e (image_prompt theme page) negative_prompt ''line-art'' w;
          (text, w2) = generate_text e (text_prompt theme page) w1
      in case image_opt of
           Some img \<Rightarrow>
             (let image_filename = theme @ ''_page_'' @ str_int page @ ''.png'';
                  image_path = os_path_join theme_folder image_filename
              in case image_save e w2 img image_path of
                   Inl err \<Rightarrow> (Some err, pdf_canvas, w2)
                 | Inr w3 \<Rightarrow>
                     (let (exc, c) = create_busybook_page e pdf_canvas img text page
                      in (exc, c, w3)))
         | None \<Rightarrow> (None, pdf_canvas, logger w2 (SkippingPage page)))"

text \<open>The loop over \<open>range(1, num_pages + 1)\<close>: an exception ends it.\<close>

fun page_loop ::
  "env \<Rightarrow> string \<Rightarrow> string \<Rightarrow> int list \<Rightarrow> canvas \<times> world \<Rightarrow> py_error option \<times> canvas \<times> world"
  where
  "page_loop e theme theme_folder [] cw = (None, fst cw, snd cw)"
| "page_loop e theme theme_folder (page # rest) cw =
     (case page_step e theme theme_folder page cw of
        (Some err, c, w) \<Rightarrow> (Some err, c, w)
      | (None, c, w) \<Rightarrow> page_loop e theme theme_folder rest (c, w))"

text \<open>
  \<open>generate_busybook\<close>. The result is the exception that ended the run, if any, the canvas
  and the world. The source catches nothing here either: the document is saved only when
  the folder, the cover and the loop end without exception.
\<close>

definition generate_busybook ::
  "env \<Rightarrow> string \<Rightarrow> int \<Rightarrow> string \<Rightarrow> world \<Rightarrow> py_error option \<times> canvas \<times> world" where
  "generate_busybook e theme num_pages output_folder w =
     (let output_filename = theme @ ''_busybook.pdf'';
          full_path = os_path_join output_folder output_filename;
          pdf_canvas = Canvas full_path letter;
          theme_folder = os_path_join output_folder theme
      in case makedirs e w theme_folder of
           Inl err \<Rightarrow> (Some err, pdf_canvas, w)
         | Inr w1 \<Rightarrow>
             (case create_cover_page e pdf_canvas theme output_folder w1 of
                (Some err, c1, w2) \<Rightarrow> (Some err, c1, w2)
              | (None, c1, w2) \<Rightarrow>
                  (case page_loop e theme theme_folder [1..num_pages] (c1, w2) of
                     (Some err, c, w3) \<Rightarrow> (Some err, c, w3)
                   | (None, c, w3) \<Rightarrow>
                       (case save e c w3 of
                          (Some err, c', w4) \<Rightarrow> (Some err, c', w4)
                        | (None, c', w4) \<Rightarrow>
                            (None, c', logger w4 (BusybookCreated full_path))))))"

section \<open>Notions used in the statements\<close>

text \<open>The call of the image service throws, or its response has no artifacts.\<close>

definition image_fails :: "py_error + response_body \<Rightarrow> bool" where
  "image_fails r =
     (case r of Inl err \<Rightarrow> True
      | Inr body \<Rightarrow> (case artifacts body of None \<Rightarrow> True | Some l \<Rightarrow> l = []))"

text \<open>The \<open>k\<close>-th call of the service gave a body whose first artifact decodes to \<open>img\<close>.\<close>

definition image_returned :: "env \<Rightarrow> nat \<Rightarrow> image \<Rightarrow> bool" where
  "image_returned e k img =
     (\<exists>req body rest. bedrock e k req = Inr body \<and> artifacts body = Some (Inr img # rest))"

text \<open>The drawing calls of lines 140 and 141: the white wash at alpha 0.3 over the whole page.\<close>

definition wash :: "draw_op list" where
  "wash = [SetFillColor (Color 1 1 1 (3 / 10)), Rect 0 0 (fst letter) (snd letter) True False]"

text \<open>The drawing calls of lines 147 to 155 for an image.\<close>

definition image_ops :: "image \<Rightarrow> draw_op list" where
  "image_ops img =
     [SetPageSize letter,
      DrawImage img inch
        (snd letter - (fst letter - 2 * inch) * (of_nat (img_height img) / of_nat (img_width img)) - inch)
        (fst letter - 2 * inch)
        ((fst letter - 2 * inch) * (of_nat (img_height img) / of_nat (img_width img))) True]"

text \<open>\<open>total_height\<close> of line 170 for a fact text \<open>s\<close>.\<close>

definition box_height :: "env \<Rightarrow> string \<Rightarrow> rat" where
  "box_height e s =
     snd (wrap e \<lparr>para_text = ''Fun Fact:'', para_style = header_style\<rparr>
            (fst letter - (22 / 10) * inch) (snd letter))
     + snd (wrap e \<lparr>para_text = s, para_style = text_style\<rparr>
            (fst letter - (22 / 10) * inch) (snd letter))
     + (3 / 10) * inch"

text \<open>The drawing calls of lines 174 to 185 for a fact text \<open>s\<close> and a page number \<open>n\<close>.\<close>

definition box_ops :: "env \<Rightarrow> string \<Rightarrow> int \<Rightarrow> draw_op list" where
  "box_ops e s n =
     [SetFillColor lightyellow,
      Rect inch inch (fst letter - 2 * inch) (box_height e s) True True,
      DrawParagraph \<lparr>para_text = ''Fun Fact:'', para_style = header_style\<rparr> ((11 / 10) * inch)
        (1 * inch + box_height e s
           - snd (wrap e \<lparr>para_text = ''Fun Fact:'', para_style = header_style\<rparr>
                    (fst letter - (22 / 10) * inch) (snd letter))),
      DrawParagraph \<lparr>para_text = s, para_style = text_style\<rparr> ((11 / 10) * inch) ((11 / 10) * inch),
      SetFillColor black,
      DrawString (fst letter / 2) ((5 / 10) * inch) (''Page '' @ str_int n)]"

text \<open>\<open>image_path\<close> of line 215.\<close>

definition page_path :: "string \<Rightarrow> string \<Rightarrow> int \<Rightarrow> string" where
  "page_path theme_folder theme page =
     os_path_join theme_folder (theme @ ''_page_'' @ str_int page @ ''.png'')"

text \<open>\<open>canvas.drawString(x, y, text)\<close> of reportlab starts the text at \<open>x\<close>: the text covers the
  abscissas from \<open>x\<close> to \<open>x + stringWidth(text)\<close>. (The call that centres a text on \<open>x\<close> is
  \<open>drawCentredString\<close>.)\<close>

definition drawString_span :: "(string \<Rightarrow> rat) \<Rightarrow> draw_op \<Rightarrow> (rat \<times> rat) option" where
  "drawString_span stringWidth op =
     (case op of DrawString x y s \<Rightarrow> Some (x, x + stringWidth s) | _ \<Rightarrow> None)"

text \<open>A folder or theme name with no slash at either end.\<close>

definition plain_name :: "string \<Rightarrow> bool" where
  "plain_name s = (s \<noteq> [] \<and> hd s \<noteq> CHR ''/'' \<and> last s \<noteq> CHR ''/'')"

section \<open>Scenarios\<close>

text \<open>
  Concrete runs: a service that always answers with one square image and one fact, one
  whose fourth call (the image of page 2) throws, and one whose text model throws at every
  call. The paragraph engine of these scenarios gives 14 points a line of 60 characters,
  the operating system refuses nothing, and no folder exists yet but the working folder.
\<close>

definition sample_image :: image where
  "sample_image =
     \<lparr>img_width = 1024, img_height = 1024, img_data = ''PNG'', truncated = False\<rparr>"

definition tall_image :: image where
  "tall_image = \<lparr>img_width = 1, img_height = 2, img_data = ''PNG'', truncated = False\<rparr>"

definition sample_body :: response_body where
  "sample_body =
     \<lparr>artifacts = Some [Inr sample_image],
      content = Some [Some ''Here is a fact: Sharks have no bones!'']\<rparr>"

definition line_wrap :: "para \<Rightarrow> rat \<Rightarrow> rat \<Rightarrow> rat \<times> rat" where
  "line_wrap p w h = (w, 14 * of_nat (Suc (length (para_text p) div 60)))"

definition env_ok :: env where
  "env_ok = \<lparr>bedrock = (\<lambda>k req. Inr sample_body), entropy = (\<lambda>k. k),
             markup_ok = (\<lambda>s. True), wrap = line_wrap, fs_refuses = (\<lambda>p. None)\<rparr>"

definition env_page2_throws :: env where
  "env_page2_throws =
     env_ok\<lparr>bedrock := (\<lambda>k req. if k = 3 then Inl ServiceError else Inr sample_body)\<rparr>"

definition env_text_throws :: env where
  "env_text_throws =
     env_ok\<lparr>bedrock := (\<lambda>k req. case req of ImageRequest m b \<Rightarrow> Inr sample_body
                                   | TextRequest m b \<Rightarrow> Inl ServiceError)\<rparr>"

definition new_world :: world where
  "new_world = \<lparr>calls = 0, files = [], dirs = [], pdfs = [], logged = []\<rparr>"

section \<open>The text cleanup\<close>

lemma rstrip_Cons:
  "rstrip (x # xs) = (if (\<forall>c\<in>set (x # xs). isspace c) then [] else x # rstrip xs)"
  by (auto simp: rstrip_def dropWhile_append)

lemma rstrip_idem: "rstrip (rstrip s) = rstrip s"
  by (simp add: rstrip_def)

lemma set_rstrip: "set (rstrip s) \<subseteq> set s"
  by (auto simp: rstrip_def dest: set_dropWhileD)

lemma rstrip_keeps: "\<not> isspace c \<Longrightarrow> c \<in> set s \<Longrightarrow> c \<in> set (rstrip s)"
  by (induction s) (auto simp: rstrip_Cons)

lemma lstrip_keeps: "\<not> isspace c \<Longrightarrow> c \<in> set s \<Longrightarrow> c \<in> set (lstrip s)"
  unfolding lstrip_def by (induction s) auto

lemma set_strip: "c \<in> set (strip s) \<Longrightarrow> c \<in> set s"
  using set_rstrip[of s] set_dropWhileD[of c isspace "rstrip s"]
  unfolding strip_def lstrip_def by blast

lemma strip_keeps: "\<not> isspace c \<Longrightarrow> c \<in> set s \<Longrightarrow> c \<in> set (strip s)"
  unfolding strip_def by (simp add: lstrip_keeps rstrip_keeps)

lemma dropWhile_rstrip:
  "\<not> isspace c \<Longrightarrow> c \<in> set s \<Longrightarrow>
   dropWhile (\<lambda>x. x \<noteq> c) (rstrip s) = rstrip (dropWhile (\<lambda>x. x \<noteq> c) s)"
  by (induction s) (auto simp: rstrip_Cons)

lemma dropWhile_lstrip:
  "\<not> isspace c \<Longrightarrow> dropWhile (\<lambda>x. x \<noteq> c) (lstrip s) = dropWhile (\<lambda>x. x \<noteq> c) s"
  unfolding lstrip_def by (induction s) auto

lemma lstrip_decomp: "s = takeWhile isspace s @ lstrip s"
  by (simp add: lstrip_def)

lemma lstrip_head: "lstrip s = c # r \<Longrightarrow> \<not> isspace c"
  unfolding lstrip_def by (metis hd_dropWhile list.distinct(1) list.sel(1))

lemma colon_not_space: "\<not> isspace CHR '':''"
  by (simp add: isspace_def)

lemma str_find_lower: "- 1 \<le> str_find s c"
  by (induction s) (auto simp: Let_def)

lemma str_find_none: "(str_find s c = - 1) = (c \<notin> set s)"
proof (induction s)
  case Nil
  show ?case by simp
next
  case (Cons x xs)
  have "- 1 \<le> str_find xs c" by (rule str_find_lower)
  then have "str_find xs c + 1 \<noteq> - 1" by arith
  with Cons show ?case by (auto simp: Let_def)
qed

lemma str_find_nonneg: "c \<in> set s \<Longrightarrow> 0 \<le> str_find s c"
  using str_find_lower[of s c] str_find_none[of s c] by arith

lemma slice_after_find:
  "c \<in> set s \<Longrightarrow> slice_from s (str_find s c + 1) = tl (dropWhile (\<lambda>x. x \<noteq> c) s)"
proof (induction s)
  case Nil
  then show ?case by simp
next
  case (Cons x xs)
  show ?case
  proof (cases "x = c")
    case True
    then show ?thesis by (simp add: slice_from_def)
  next
    case False
    with Cons.prems have m: "c \<in> set xs" by simp
    from str_find_nonneg[OF m]
    have "nat (str_find xs c + 1 + 1) = Suc (nat (str_find xs c + 1))" by simp
    with False m Cons.IH show ?thesis
      by (simp add: slice_from_def Let_def str_find_none)
  qed
qed

lemma strip_after:
  assumes ns: "\<not> isspace c" and m: "c \<in> set s"
  shows "strip (tl (dropWhile (\<lambda>x. x \<noteq> c) (strip s))) = strip (tl (dropWhile (\<lambda>x. x \<noteq> c) s))"
proof -
  obtain t where t: "dropWhile (\<lambda>x. x \<noteq> c) s = c # t"
    using m by (metis (mono_tags, lifting) dropWhile_eq_Nil_conv hd_dropWhile list.exhaust_sel)
  have "dropWhile (\<lambda>x. x \<noteq> c) (strip s) = rstrip (c # t)"
    unfolding strip_def using ns m t by (simp add: dropWhile_lstrip dropWhile_rstrip)
  also have "\<dots> = c # rstrip t" using ns by (auto simp: rstrip_Cons)
  finally show ?thesis using t by (simp add: strip_def rstrip_idem)
qed

lemma clean_text_colon:
  assumes "CHR '':'' \<in> set raw"
  shows "clean_text raw = strip (tl (dropWhile (\<lambda>c. c \<noteq> CHR '':'') raw))"
proof -
  have m: "CHR '':'' \<in> set (strip raw)"
    using assms by (simp add: strip_keeps colon_not_space)
  then have "clean_text raw = strip (slice_from (strip raw) (str_find (strip raw) CHR '':'' + 1))"
    by (simp add: clean_text_def Let_def str_find_none)
  also have "\<dots> = strip (tl (dropWhile (\<lambda>c. c \<noteq> CHR '':'') (strip raw)))"
    using m by (simp add: slice_after_find)
  also have "\<dots> = strip (tl (dropWhile (\<lambda>c. c \<noteq> CHR '':'') raw))"
    using assms by (simp add: strip_after colon_not_space)
  finally show ?thesis .
qed

lemma clean_text_no_colon:
  assumes "CHR '':'' \<notin> set raw"
  shows "clean_text raw = re_sub_intro (strip raw)"
proof -
  have "CHR '':'' \<notin> set (strip raw)" using assms set_strip by blast
  then show ?thesis by (simp add: clean_text_def Let_def str_find_none)
qed

lemma find_phrase_none:
  "(List.find (\<lambda>p. imatch p t) intro_phrases = None) = (\<forall>p\<in>set intro_phrases. \<not> imatch p t)"
  by (auto simp: find_None_iff)

lemma re_sub_intro_none:
  "\<forall>p\<in>set intro_phrases. \<not> imatch p t \<Longrightarrow> re_sub_intro t = t"
  using find_phrase_none[of t] by (simp add: re_sub_intro_def)

lemma re_sub_intro_some:
  assumes "\<exists>p\<in>set intro_phrases. imatch p t"
  shows "\<exists>p\<in>set intro_phrases. \<exists>ws. imatch p t \<and> (\<forall>c\<in>set ws. isspace c)
           \<and> t = take (length p) t @ ws @ re_sub_intro t
           \<and> (\<forall>c r. re_sub_intro t = c # r \<longrightarrow> \<not> isspace c)"
proof -
  from assms obtain p where f: "List.find (\<lambda>p. imatch p t) intro_phrases = Some p"
    using find_phrase_none[of t] by (cases "List.find (\<lambda>p. imatch p t) intro_phrases") auto
  then have p: "p \<in> set intro_phrases" "imatch p t" by (auto simp: find_Some_iff)
  have r: "re_sub_intro t = lstrip (drop (length p) t)"
    using f by (simp add: re_sub_intro_def slice_from_def)
  let ?ws = "takeWhile isspace (drop (length p) t)"
  have "t = take (length p) t @ drop (length p) t" by simp
  also have "drop (length p) t = ?ws @ re_sub_intro t" using r lstrip_decomp by simp
  finally have d: "t = take (length p) t @ ?ws @ re_sub_intro t" .
  have ws: "\<forall>c\<in>set ?ws. isspace c" by (auto dest: set_takeWhileD)
  have h: "\<forall>c r'. re_sub_intro t = c # r' \<longrightarrow> \<not> isspace c" using r lstrip_head by auto
  from p d ws h show ?thesis by blast
qed

lemmas text_evals =
  clean_text_def strip_def lstrip_def rstrip_def isspace_def re_sub_intro_def
  intro_phrases_def slice_from_def ascii_lower_def Let_def

lemma sharks_example:
  "clean_text ''Here's a fun fact about sharks'' = ''fun fact about sharks''"
  by (simp add: text_evals)

text \<open>
  Claim C4. On a text with a colon, the cleanup returns the trimmed substring after the
  first colon. On a text without a colon, when one of the four phrases starts the trimmed
  text (whatever the case of its letters), the result is the trimmed text without that one
  occurrence and without the whitespace after it; when none does, the trimmed text is
  returned as it is. \<open>Here's a fun fact about sharks\<close> gives \<open>fun fact about sharks\<close>.
\<close>

theorem clean_text_spec:
  "(CHR '':'' \<in> set raw \<longrightarrow>
      clean_text raw = strip (tl (dropWhile (\<lambda>c. c \<noteq> CHR '':'') raw)))
   \<and> (CHR '':'' \<notin> set raw \<longrightarrow>
        ((\<exists>p\<in>set intro_phrases. imatch p (strip raw)) \<longrightarrow>
           (\<exists>p\<in>set intro_phrases. \<exists>ws.
              imatch p (strip raw) \<and> (\<forall>c\<in>set ws. isspace c)
              \<and> strip raw = take (length p) (strip raw) @ ws @ clean_text raw
              \<and> (\<forall>c r. clean_text raw = c # r \<longrightarrow> \<not> isspace c)))
        \<and> ((\<forall>p\<in>set intro_phrases. \<not> imatch p (strip raw)) \<longrightarrow> clean_text raw = strip raw))
   \<and> clean_text ''Here's a fun fact about sharks'' = ''fun fact about sharks''
   \<and> clean_text ''HERE'S A fun fact about sharks'' = ''fun fact about sharks''"
proof (intro conjI impI)
  assume "CHR '':'' \<in> set raw"
  then show "clean_text raw = strip (tl (dropWhile (\<lambda>c. c \<noteq> CHR '':'') raw))"
    by (rule clean_text_colon)
next
  assume n: "CHR '':'' \<notin> set raw" and m: "\<exists>p\<in>set intro_phrases. imatch p (strip raw)"
  show "\<exists>p\<in>set intro_phrases. \<exists>ws.
              imatch p (strip raw) \<and> (\<forall>c\<in>set ws. isspace c)
              \<and> strip raw = take (length p) (strip raw) @ ws @ clean_text raw
              \<and> (\<forall>c r. clean_text raw = c # r \<longrightarrow> \<not> isspace c)"
    using re_sub_intro_some[OF m] clean_text_no_colon[OF n] by simp
next
  assume n: "CHR '':'' \<notin> set raw" and m: "\<forall>p\<in>set intro_phrases. \<not> imatch p (strip raw)"
  show "clean_text raw = strip raw"
    using re_sub_intro_none[OF m] clean_text_no_colon[OF n] by simp
next
  show "clean_text ''Here's a fun fact about sharks'' = ''fun fact about sharks''"
    by (simp add: text_evals)
next
  show "clean_text ''HERE'S A fun fact about sharks'' = ''fun fact about sharks''"
    by code_simp
qed

theorem clean_text_spec_witness:
  "clean_text '' Note: sharks have no bones. '' = ''sharks have no bones.''
   \<and> clean_text ''Sure, Sure,  sharks'' = ''Sure,  sharks''
   \<and> clean_text ''Sharks are fish'' = ''Sharks are fish''"
proof -
  have a: "CHR '':'' \<in> set '' Note: sharks have no bones. ''" by simp
  have b: "CHR '':'' \<notin> set ''Sure, Sure,  sharks''" by simp
  have c: "CHR '':'' \<notin> set ''Sharks are fish''" by simp
  have c': "\<forall>p\<in>set intro_phrases. \<not> imatch p (strip ''Sharks are fish'')"
    by (simp add: text_evals)
  have s: "strip ''Sharks are fish'' = ''Sharks are fish''" by (simp add: text_evals)
  from clean_text_spec[of " '' Note: sharks have no bones. ''"] a
  have 1: "clean_text '' Note: sharks have no bones. '' = ''sharks have no bones.''"
    by (simp add: text_evals)
  from clean_text_spec[of "''Sharks are fish''"] c c'
  have 3: "clean_text ''Sharks are fish'' = ''Sharks are fish''" using s by simp
  have 2: "clean_text ''Sure, Sure,  sharks'' = ''Sure,  sharks''" by (simp add: text_evals)
  from 1 2 3 show ?thesis by simp
qed

section \<open>The asset requester: properties\<close>

lemma generate_image_frame:
  "generate_image e p n s w = (r, w') \<Longrightarrow>
   calls w' = Suc (calls w) \<and> files w' = files w \<and> dirs w' = dirs w \<and> pdfs w' = pdfs w"
  by (auto simp: generate_image_def Let_def logger_def split: sum.splits option.splits list.splits)

lemma generate_image_Some:
  "generate_image e p n s w = (Some img, w') \<Longrightarrow>
   \<exists>req body rest. bedrock e (calls w) req = Inr body \<and> artifacts body = Some (Inr img # rest)"
  by (auto simp: generate_image_def Let_def logger_def split: sum.splits option.splits list.splits)

lemma image_returned_not_fails:
  "image_returned e k img \<Longrightarrow> \<forall>req. image_fails (bedrock e k req) \<Longrightarrow> False"
  unfolding image_returned_def image_fails_def
  by (metis (mono_tags, lifting) list.distinct(1) option.simps(5) sum.simps(6))

lemma generate_image_fails:
  "\<forall>req. image_fails (bedrock e (calls w) req) \<Longrightarrow> fst (generate_image e p n s w) = None"
  by (cases "generate_image e p n s w", cases "fst (generate_image e p n s w)")
     (auto dest!: generate_image_Some simp: image_fails_def split: sum.splits option.splits)

lemma generate_text_frame:
  "generate_text e p w = (r, w') \<Longrightarrow>
   calls w' = Suc (calls w) \<and> files w' = files w \<and> dirs w' = dirs w \<and> pdfs w' = pdfs w"
  by (auto simp: generate_text_def Let_def logger_def split: sum.splits option.splits list.splits)

lemma randint_range: "a \<le> b \<Longrightarrow> a \<le> randint r a b \<and> randint r a b \<le> b"
proof -
  assume "a \<le> b"
  then have m: "0 < b - a + 1" by simp
  have lo: "0 \<le> int r mod (b - a + 1)" using m by simp
  have hi: "int r mod (b - a + 1) < b - a + 1" using m by (rule pos_mod_bound)
  from lo hi show ?thesis unfolding randint_def by linarith
qed

lemma randint_onto: "a \<le> n \<Longrightarrow> n \<le> b \<Longrightarrow> randint (nat (n - a)) a b = n"
  by (simp add: randint_def)

text \<open>
  Claim C9. The body of every image request has the prompt at weight 1 followed by the
  negative prompt at weight -1, guidance scale 10, 50 steps, one sample, the style preset
  it was given, and a seed between 0 and \<open>2^32 - 1\<close>; every integer of that range is the seed
  of the body for some draw. \<open>generate_image\<close> asks the service with this body and no other:
  a service that throws on every other request gives the same result. How likely each seed
  is belongs to Python's generator and is not part of the model.
\<close>

theorem image_request_shape:
  "text_prompts (image_request_body prompt negative stylePreset r)
      = [\<lparr>prompt_text = prompt, weight = 1\<rparr>, \<lparr>prompt_text = negative, weight = - 1\<rparr>]
   \<and> cfg_scale (image_request_body prompt negative stylePreset r) = 10
   \<and> steps (image_request_body prompt negative stylePreset r) = 50
   \<and> samples (image_request_body prompt negative stylePreset r) = 1
   \<and> style_preset (image_request_body prompt negative stylePreset r) = stylePreset
   \<and> 0 \<le> seed (image_request_body prompt negative stylePreset r)
   \<and> seed (image_request_body prompt negative stylePreset r) \<le> 2 ^ 32 - 1
   \<and> (\<forall>n. 0 \<le> n \<and> n \<le> 2 ^ 32 - 1 \<longrightarrow>
          (\<exists>r'. seed (image_request_body prompt negative stylePreset r') = n))
   \<and> generate_image e prompt negative stylePreset w
      = generate_image
          (e\<lparr>bedrock := \<lambda>k req.
                if req = ImageRequest ''stability.stable-diffusion-xl-v1''
                           (image_request_body prompt negative stylePreset (entropy e k))
                then bedrock e k req else Inl ServiceError\<rparr>)
          prompt negative stylePreset w"
proof -
  have rg: "0 \<le> randint r 0 4294967295 \<and> randint r 0 4294967295 \<le> 4294967295"
    by (rule randint_range) simp
  have on: "\<forall>n. 0 \<le> n \<and> n \<le> 2 ^ 32 - 1 \<longrightarrow>
          (\<exists>r'. seed (image_request_body prompt negative stylePreset r') = n)"
  proof (intro allI impI)
    fix n :: int assume "0 \<le> n \<and> n \<le> 2 ^ 32 - 1"
    then have "randint (nat (n - 0)) 0 4294967295 = n" by (intro randint_onto) simp_all
    then show "\<exists>r'. seed (image_request_body prompt negative stylePreset r') = n"
      by (intro exI[of _ "nat (n - 0)"]) (simp add: image_request_body_def)
  qed
  have g: "generate_image e prompt negative stylePreset w
      = generate_image
          (e\<lparr>bedrock := \<lambda>k req.
                if req = ImageRequest ''stability.stable-diffusion-xl-v1''
                           (image_request_body prompt negative stylePreset (entropy e k))
                then bedrock e k req else Inl ServiceError\<rparr>)
          prompt negative stylePreset w"
    by (simp add: generate_image_def Let_def)
  from rg on g show ?thesis by (simp add: image_request_body_def)
qed

theorem image_request_shape_witness:
  "(0::int) \<le> 4294967295 \<and> (4294967295::int) \<le> 2 ^ 32 - 1
   \<and> (\<exists>r. seed (image_request_body ''a shark'' ''blurry'' ''line-art'' r) = 4294967295)
   \<and> seed (image_request_body ''a shark'' ''blurry'' ''line-art'' 4294967296) = 0"
proof -
  have h: "(0::int) \<le> 4294967295 \<and> (4294967295::int) \<le> 2 ^ 32 - 1" by simp
  from image_request_shape[of "''a shark''" "''blurry''" "''line-art''" 0] h
  have "\<exists>r. seed (image_request_body ''a shark'' ''blurry'' ''line-art'' r) = 4294967295"
    by blast
  moreover have "seed (image_request_body ''a shark'' ''blurry'' ''line-art'' 4294967296) = 0"
    by (simp add: image_request_body_def randint_def)
  ultimately show ?thesis using h by simp
qed

section \<open>Decimal numerals and paths: properties\<close>

declare digits.simps [simp del]

lemma digit_char_inj: "a < 10 \<Longrightarrow> b < 10 \<Longrightarrow> digit_char a = digit_char b \<Longrightarrow> a = b"
proof -
  assume a: "a < 10" and b: "b < 10" and eq: "digit_char a = digit_char b"
  from eq have "(of_char (char_of (48 + a)) :: nat) = of_char (char_of (48 + b))"
    by (simp add: digit_char_def)
  with a b show "a = b" by simp
qed

lemma digits_nonempty: "digits n \<noteq> []"
  by (subst digits.simps) simp

lemma digits_length: "(length (digits n) = Suc 0) = (n < 10)"
proof (cases "n < 10")
  case True then show ?thesis by (subst digits.simps) simp
next
  case False
  have "digits (n div 10) \<noteq> []" by (rule digits_nonempty)
  then have "length (digits (n div 10)) \<noteq> 0" by simp
  with False show ?thesis by (subst digits.simps) simp
qed

lemma digits_inj: "digits n = digits m \<Longrightarrow> n = m"
proof (induction n arbitrary: m rule: digits.induct)
  case (1 n)
  show ?case
  proof (cases "n < 10")
    case True
    then have "length (digits n) = 1" by (simp add: digits_length)
    with "1.prems" have m: "m < 10" by (simp add: digits_length)
    from True m "1.prems" have "digit_char n = digit_char m"
      by (simp add: digits.simps[of n] digits.simps[of m])
    with True m show ?thesis by (rule digit_char_inj)
  next
    case False
    then have "length (digits n) \<noteq> 1" by (simp add: digits_length)
    with "1.prems" have m: "\<not> m < 10" by (simp add: digits_length)
    from False m "1.prems"
    have eq: "digits (n div 10) @ [digit_char (n mod 10)] = digits (m div 10) @ [digit_char (m mod 10)]"
      by (simp add: digits.simps[of n] digits.simps[of m])
    then have d: "digits (n div 10) = digits (m div 10)" and c: "digit_char (n mod 10) = digit_char (m mod 10)"
      by simp_all
    from "1.IH"[OF False d] have "n div 10 = m div 10" .
    moreover from c have "n mod 10 = m mod 10" by (intro digit_char_inj) simp_all
    ultimately show ?thesis by (metis div_mult_mod_eq)
  qed
qed

lemma str_int_inj: "0 \<le> p \<Longrightarrow> 0 \<le> q \<Longrightarrow> str_int p = str_int q \<Longrightarrow> p = q"
  by (auto simp: str_int_def dest!: digits_inj)

lemma str_int_small:
  "str_int 1 = ''1''" "str_int 2 = ''2''" "str_int 3 = ''3''"
  by code_simp+

lemma os_path_join_suffix:
  "os_path_join a (t @ c # x) =
     (if hd (t @ [c]) = CHR ''/'' then [] else if a = [] \<or> last a = CHR ''/'' then a else a @ ''/'')
       @ t @ c # x"
  by (cases t) (auto simp: os_path_join_def)

lemma page_path_inj:
  assumes "0 \<le> p" "0 \<le> q" "page_path tf theme p = page_path tf theme q"
  shows "p = q"
proof -
  from assms(3) have "str_int p @ ''.png'' = str_int q @ ''.png''"
    unfolding page_path_def using os_path_join_suffix[of tf theme "CHR ''_''"] by simp
  then have "str_int p = str_int q" by simp
  with assms(1,2) show ?thesis by (rule str_int_inj)
qed

lemma cover_path_not_page:
  "os_path_join tf (theme @ ''_cover.png'') \<noteq> page_path tf theme p"
  unfolding page_path_def using os_path_join_suffix[of tf theme "CHR ''_''"] by simp

lemma label_inj:
  "0 \<le> p \<Longrightarrow> 0 \<le> q \<Longrightarrow> ''Page '' @ str_int p = ''Page '' @ str_int q \<Longrightarrow> p = q"
  by (simp add: str_int_inj)

lemma upto_1_1: "[1..(1::int)] = [1]" by (simp add: upto.simps)

lemma upto_1_2: "[1..(2::int)] = [1, 2]" by (simp add: upto.simps)

lemma upto_1_3: "[1..(3::int)] = [1, 2, 3]" by (simp add: upto.simps)

lemma split_slash_nonempty: "split_slash p \<noteq> []"
  by (induction p) (auto split: list.splits)

lemma split_slash_plain: "CHR ''/'' \<notin> set f \<Longrightarrow> split_slash f = [f]"
  by (induction f) auto

lemma split_slash_slash: "split_slash (p @ CHR ''/'' # q) = split_slash p @ split_slash q"
  using split_slash_nonempty[of "p @ CHR ''/'' # q" for p]
  by (induction p) (auto split: list.splits simp: split_slash_nonempty)

lemma is_abs_append: "p \<noteq> [] \<Longrightarrow> is_abs (p @ q) = is_abs p"
  by (cases p) (simp_all add: is_abs_def)

lemma resolve_snoc_empty: "resolve ab st (xs @ [[]]) = resolve ab st xs"
  by (induction ab st xs rule: resolve.induct) auto

lemma whole_in_folders_on:
  "(is_abs p, resolve (is_abs p) [] (split_slash p)) \<in> set (folders_on p)"
proof -
  let ?n = "length (split_slash p)"
  have "Suc 0 \<le> ?n" using split_slash_nonempty[of p] by (cases "split_slash p") simp_all
  then have "?n \<in> set [1..<Suc ?n]" by simp
  then have "(\<lambda>k. (is_abs p, resolve (is_abs p) [] (take k (split_slash p)))) ?n
               \<in> set (folders_on p)"
    unfolding folders_on_def set_map by (rule imageI)
  then show ?thesis by simp
qed

text \<open>A file whose name has no slash, joined to a folder, lies in that folder.\<close>

lemma parent_of_join:
  assumes "CHR ''/'' \<notin> set f" and "p \<noteq> []"
  shows "parent_folder (os_path_join p f) \<in> set (folders_on p)"
proof (cases "last p = CHR ''/''")
  case False
  from assms(1) have hd: "\<not> (f \<noteq> [] \<and> hd f = CHR ''/'')" by (cases f) auto
  with False assms(2) have j: "os_path_join p f = p @ CHR ''/'' # f" by (simp add: os_path_join_def)
  have "split_slash (p @ CHR ''/'' # f) = split_slash p @ [f]"
    using assms(1) by (simp add: split_slash_slash split_slash_plain)
  then have "parent_folder (os_path_join p f) = (is_abs p, resolve (is_abs p) [] (split_slash p))"
    using j assms(2) by (simp add: parent_folder_def is_abs_append)
  then show ?thesis using whole_in_folders_on by simp
next
  case True
  with assms(2) obtain q where p: "p = q @ ''/''" by (metis append_butlast_last_id)
  from assms(1) have hd: "\<not> (f \<noteq> [] \<and> hd f = CHR ''/'')" by (cases f) auto
  with True assms(2) have j: "os_path_join p f = q @ CHR ''/'' # f" by (simp add: os_path_join_def p)
  have sp: "split_slash p = split_slash q @ [[]]" by (simp add: p split_slash_slash)
  have "split_slash (q @ CHR ''/'' # f) = split_slash q @ [f]"
    using assms(1) by (simp add: split_slash_slash split_slash_plain)
  then have "parent_folder (os_path_join p f)
               = (is_abs p, resolve (is_abs p) [] (split_slash q))"
    using j assms(2) is_abs_append[of p "f"] is_abs_append[of p "[]"]
    by (simp add: parent_folder_def p is_abs_def)
  also have "\<dots> = (is_abs p, resolve (is_abs p) [] (split_slash p))"
    by (simp add: sp resolve_snoc_empty)
  finally show ?thesis using whole_in_folders_on by simp
qed

lemma parent_exists_after_makedirs:
  assumes "CHR ''/'' \<notin> set f" and "makedirs e w p = Inr w'"
  shows "folder_exists w' (parent_folder (os_path_join p f))"
proof (cases "p = []")
  case True
  from assms(1) have "\<not> (f \<noteq> [] \<and> hd f = CHR ''/'')" by (cases f) auto
  with True have "os_path_join p f = f" by (simp add: os_path_join_def)
  moreover have "split_slash f = [f]" using assms(1) by (rule split_slash_plain)
  ultimately show ?thesis by (simp add: folder_exists_def parent_folder_def)
next
  case False
  from assms(2) have "set (folders_on p) \<subseteq> set (dirs w')"
    by (auto simp: makedirs_def split: option.splits)
  with parent_of_join[OF assms(1) False] show ?thesis by (auto simp: folder_exists_def)
qed

section \<open>The cover compositor: properties\<close>

lemma create_cover_page_cases:
  assumes "create_cover_page e c theme out w = (exc, c', w')"
      and "generate_image e (cover_prompt theme)
             ''blurry, distorted, texts, words, letters'' ''digital-art'' w = (r, w1)"
  shows "calls w' = Suc (calls w)" and "pdfs w' = pdfs w"
    and "(exc \<noteq> None \<and> c' = c \<and> files w' = files w)
       \<or> (exc = None
           \<and> c' = c\<lparr>pages := pages c @ [current c
                      @ (case r of None \<Rightarrow> []
                         | Some img \<Rightarrow> [DrawImage img 0 0 (fst letter) (snd letter) False])
                      @ wash],
                    current := []\<rparr>
           \<and> files w' = files w
                @ (case r of None \<Rightarrow> []
                   | Some img \<Rightarrow>
                       [(os_path_join (os_path_join out theme) (theme @ ''_cover.png''), img)]))"
proof -
  note f = generate_image_frame[OF assms(2)]
  show "calls w' = Suc (calls w)" and "pdfs w' = pdfs w"
    using assms f
    by (auto simp: create_cover_page_def Let_def makedirs_def image_save_def
          split: option.splits prod.splits sum.splits if_splits)
  show "(exc \<noteq> None \<and> c' = c \<and> files w' = files w)
       \<or> (exc = None
           \<and> c' = c\<lparr>pages := pages c @ [current c
                      @ (case r of None \<Rightarrow> []
                         | Some img \<Rightarrow> [DrawImage img 0 0 (fst letter) (snd letter) False])
                      @ wash],
                    current := []\<rparr>
           \<and> files w' = files w
                @ (case r of None \<Rightarrow> []
                   | Some img \<Rightarrow>
                       [(os_path_join (os_path_join out theme) (theme @ ''_cover.png''), img)]))"
  proof (cases exc)
    case None
    with assms f show ?thesis
      by (auto simp: create_cover_page_def Let_def letter_def wash_def draw_def showPage_def
            makedirs_def image_save_def
            split: option.splits prod.splits sum.splits if_splits)
  next
    case (Some err)
    with assms f show ?thesis
      by (auto simp: create_cover_page_def Let_def makedirs_def image_save_def
            split: option.splits prod.splits sum.splits if_splits)
  qed
qed

lemma create_cover_page_no_image:
  assumes "create_cover_page e c theme out w = (exc, c', w')"
      and "fst (generate_image e (cover_prompt theme)
             ''blurry, distorted, texts, words, letters'' ''digital-art'' w) = None"
      and "fs_refuses e (os_path_join out theme) = None"
  shows "exc = None"
  using assms
  by (auto simp: create_cover_page_def Let_def makedirs_def split: prod.splits)

lemma create_cover_page_saved:
  assumes run: "create_cover_page e c theme out w = (exc, c', w')"
      and gi: "fst (generate_image e (cover_prompt theme)
             ''blurry, distorted, texts, words, letters'' ''digital-art'' w) = Some img"
      and mk: "fs_refuses e (os_path_join out theme) = None"
      and tr: "\<not> truncated img"
      and sl: "CHR ''/'' \<notin> set theme"
      and sv: "fs_refuses e (os_path_join (os_path_join out theme) (theme @ ''_cover.png'')) = None"
  shows "exc = None"
proof -
  obtain w1 where g: "generate_image e (cover_prompt theme)
             ''blurry, distorted, texts, words, letters'' ''digital-art'' w = (Some img, w1)"
    using gi by (cases "generate_image e (cover_prompt theme)
             ''blurry, distorted, texts, words, letters'' ''digital-art'' w") auto
  let ?tf = "os_path_join out theme"
  let ?w2 = "w1\<lparr>dirs := dirs w1 @ folders_on ?tf\<rparr>"
  have m: "makedirs e w1 ?tf = Inr ?w2" using mk by (simp add: makedirs_def)
  have "CHR ''/'' \<notin> set (theme @ ''_cover.png'')" using sl by simp
  from parent_exists_after_makedirs[OF this m]
  have "open_for_write e ?w2 (os_path_join ?tf (theme @ ''_cover.png'')) = None"
    using sv by (simp add: open_for_write_def)
  then have "\<exists>w3. image_save e ?w2 img (os_path_join ?tf (theme @ ''_cover.png'')) = Inr w3"
    using tr by (simp add: image_save_def)
  with run g m show ?thesis
    by (auto simp: create_cover_page_def Let_def split: prod.splits)
qed

lemma plain_join: "plain_name a \<Longrightarrow> plain_name b \<Longrightarrow> os_path_join a b = a @ ''/'' @ b"
  by (simp add: plain_name_def os_path_join_def)

lemma plain_join_plain: "plain_name a \<Longrightarrow> plain_name b \<Longrightarrow> plain_name (a @ ''/'' @ b)"
  by (auto simp: plain_name_def)

lemma plain_cover_path:
  assumes "plain_name out \<and> plain_name theme"
  shows "os_path_join (os_path_join out theme) (theme @ ''_cover.png'')
              = out @ ''/'' @ theme @ ''/'' @ theme @ ''_cover.png''"
proof -
  from assms have 1: "os_path_join out theme = out @ ''/'' @ theme" by (simp add: plain_join)
  from assms have 2: "plain_name (out @ ''/'' @ theme)"
    using plain_join_plain[of out theme] by simp
  from assms have 3: "plain_name (theme @ ''_cover.png'')" by (auto simp: plain_name_def)
  from 1 2 3 show ?thesis by (simp add: plain_join)
qed

lemmas fs_evals =
  makedirs_def image_save_def open_for_write_def folder_exists_def parent_folder_def
  folders_on_def is_abs_def os_path_join_def

text \<open>
  Claim C8 says that the wash is drawn and the page sealed for every outcome of the cover
  image call, and that a returned image is persisted. With the theme \<open>a/b\<close> the folder
  created is \<open>BusyBooks/a/b\<close> and the path of the cover image is
  \<open>BusyBooks/a/b/a/b_cover.png\<close>, in a folder that nothing created: the image is returned,
  \<open>cover_image.save\<close> raises \<open>FileNotFoundError\<close>, and the function ends there, with nothing
  drawn, no page sealed and no file written.
\<close>

theorem cover_save_raises_counterexample:
  "fst (generate_image env_ok (cover_prompt ''a/b'')
          ''blurry, distorted, texts, words, letters'' ''digital-art'' new_world)
     = Some sample_image
   \<and> create_cover_page env_ok (Canvas ''BusyBooks/a/b_busybook.pdf'' letter) ''a/b''
         ''BusyBooks'' new_world
     = (Some FileNotFoundError,
        Canvas ''BusyBooks/a/b_busybook.pdf'' letter,
        new_world\<lparr>calls := 1,
                   dirs := [(False, [''BusyBooks'']), (False, [''BusyBooks'', ''a'']),
                            (False, [''BusyBooks'', ''a'', ''b''])]\<rparr>)
   \<and> pages (Canvas ''BusyBooks/a/b_busybook.pdf'' letter) = []
   \<and> files new_world = []"
  by (simp add: create_cover_page_def generate_image_def env_ok_def sample_body_def
        sample_image_def new_world_def Canvas_def letter_def Let_def fs_evals)

text \<open>
  Claim C8, amended. When \<open>create_cover_page\<close> ends without exception, it has sealed one
  page that ends with the white wash at alpha 0.3 over the whole page, whether the cover
  image was generated or not; a generated image has been written to
  \<open>os.path.join(os.path.join(output_folder, theme), theme + "_cover.png")\<close>, which is
  \<open><output_folder>/<theme>/<theme>_cover.png\<close> for plain names, and is drawn from the origin
  at the full page size, before the wash. When an exception of \<open>os.makedirs\<close> or of
  \<open>cover_image.save\<close> ends it, nothing is drawn, no page is sealed and no file is written.
  It ends without exception when the system does not refuse the theme folder and no image
  was generated, and when an image was generated that is not truncated, for a theme
  without slash, and the system refuses neither the theme folder nor the path of the image.
\<close>

theorem cover_page_outcomes:
  assumes "create_cover_page e c theme out w = (exc, c', w')"
  shows "(exc = None \<longrightarrow>
            (\<exists>cov. pages c' = pages c @ [current c @ cov
                       @ [SetFillColor (Color 1 1 1 (3 / 10)),
                          Rect 0 0 (fst letter) (snd letter) True False]]
               \<and> cov = (case fst (generate_image e (cover_prompt theme)
                                   ''blurry, distorted, texts, words, letters'' ''digital-art'' w) of
                          None \<Rightarrow> []
                        | Some img \<Rightarrow> [DrawImage img 0 0 (fst letter) (snd letter) False]))
            \<and> current c' = []
            \<and> files w' = files w
                 @ (case fst (generate_image e (cover_prompt theme)
                                ''blurry, distorted, texts, words, letters'' ''digital-art'' w) of
                      None \<Rightarrow> []
                    | Some img \<Rightarrow>
                        [(os_path_join (os_path_join out theme) (theme @ ''_cover.png''), img)]))
       \<and> (exc \<noteq> None \<longrightarrow> c' = c \<and> files w' = files w)
       \<and> (fs_refuses e (os_path_join out theme) = None
            \<and> fst (generate_image e (cover_prompt theme)
                      ''blurry, distorted, texts, words, letters'' ''digital-art'' w) = None
            \<longrightarrow> exc = None)
       \<and> (\<forall>img. fs_refuses e (os_path_join out theme) = None
            \<and> fst (generate_image e (cover_prompt theme)
                      ''blurry, distorted, texts, words, letters'' ''digital-art'' w) = Some img
            \<and> \<not> truncated img \<and> CHR ''/'' \<notin> set theme
            \<and> fs_refuses e (os_path_join (os_path_join out theme) (theme @ ''_cover.png'')) = None
            \<longrightarrow> exc = None)
       \<and> (plain_name out \<and> plain_name theme \<longrightarrow>
            os_path_join (os_path_join out theme) (theme @ ''_cover.png'')
              = out @ ''/'' @ theme @ ''/'' @ theme @ ''_cover.png'')"
proof -
  obtain r w1 where gi: "generate_image e (cover_prompt theme)
         ''blurry, distorted, texts, words, letters'' ''digital-art'' w = (r, w1)"
    by (cases "generate_image e (cover_prompt theme)
         ''blurry, distorted, texts, words, letters'' ''digital-art'' w")
  note cc = create_cover_page_cases[OF assms gi]
  have A: "exc = None \<longrightarrow>
            (\<exists>cov. pages c' = pages c @ [current c @ cov
                       @ [SetFillColor (Color 1 1 1 (3 / 10)),
                          Rect 0 0 (fst letter) (snd letter) True False]]
               \<and> cov = (case fst (generate_image e (cover_prompt theme)
                                   ''blurry, distorted, texts, words, letters'' ''digital-art'' w) of
                          None \<Rightarrow> []
                        | Some img \<Rightarrow> [DrawImage img 0 0 (fst letter) (snd letter) False]))
            \<and> current c' = []
            \<and> files w' = files w
                 @ (case fst (generate_image e (cover_prompt theme)
                                ''blurry, distorted, texts, words, letters'' ''digital-art'' w) of
                      None \<Rightarrow> []
                    | Some img \<Rightarrow>
                        [(os_path_join (os_path_join out theme) (theme @ ''_cover.png''), img)])"
    using cc(3) gi by (auto simp: wash_def)
  have B: "exc \<noteq> None \<longrightarrow> c' = c \<and> files w' = files w" using cc(3) by auto
  have C: "fs_refuses e (os_path_join out theme) = None
            \<and> fst (generate_image e (cover_prompt theme)
                      ''blurry, distorted, texts, words, letters'' ''digital-art'' w) = None
            \<longrightarrow> exc = None"
    using create_cover_page_no_image[OF assms] by blast
  have D: "\<forall>img. fs_refuses e (os_path_join out theme) = None
            \<and> fst (generate_image e (cover_prompt theme)
                      ''blurry, distorted, texts, words, letters'' ''digital-art'' w) = Some img
            \<and> \<not> truncated img \<and> CHR ''/'' \<notin> set theme
            \<and> fs_refuses e (os_path_join (os_path_join out theme) (theme @ ''_cover.png'')) = None
            \<longrightarrow> exc = None"
    using create_cover_page_saved[OF assms] by blast
  have E: "plain_name out \<and> plain_name theme \<longrightarrow>
            os_path_join (os_path_join out theme) (theme @ ''_cover.png'')
              = out @ ''/'' @ theme @ ''/'' @ theme @ ''_cover.png''"
    using plain_cover_path by blast
  from A B C D E show ?thesis by blast
qed

theorem cover_page_outcomes_witness:
  "plain_name ''BusyBooks'' \<and> plain_name ''Animals''
   \<and> fst (create_cover_page env_ok (Canvas ''BusyBooks/Animals_busybook.pdf'' letter)
            ''Animals'' ''BusyBooks'' new_world) = None
   \<and> files (snd (snd (create_cover_page env_ok (Canvas ''BusyBooks/Animals_busybook.pdf'' letter)
                    ''Animals'' ''BusyBooks'' new_world)))
       = [(''BusyBooks/Animals/Animals_cover.png'', sample_image)]
   \<and> pages (fst (snd (create_cover_page env_ok (Canvas ''BusyBooks/Animals_busybook.pdf'' letter)
                    ''Animals'' ''BusyBooks'' new_world)))
       = [[DrawImage sample_image 0 0 612 792 False, SetFillColor (Color 1 1 1 (3 / 10)),
           Rect 0 0 612 792 True False]]"
proof -
  let ?c = "Canvas ''BusyBooks/Animals_busybook.pdf'' letter"
  let ?C = "create_cover_page env_ok ?c ''Animals'' ''BusyBooks'' new_world"
  have p: "plain_name ''BusyBooks'' \<and> plain_name ''Animals''" by (simp add: plain_name_def)
  have run: "?C = (fst ?C, fst (snd ?C), snd (snd ?C))" by simp
  have gi: "fst (generate_image env_ok (cover_prompt ''Animals'')
                  ''blurry, distorted, texts, words, letters'' ''digital-art'' new_world)
            = Some sample_image"
    by (simp add: generate_image_def env_ok_def sample_body_def Let_def)
  have h: "fs_refuses env_ok (os_path_join ''BusyBooks'' ''Animals'') = None
           \<and> \<not> truncated sample_image \<and> CHR ''/'' \<notin> set ''Animals''
           \<and> fs_refuses env_ok (os_path_join (os_path_join ''BusyBooks'' ''Animals'')
                                  (''Animals'' @ ''_cover.png'')) = None"
    by (simp add: env_ok_def sample_image_def)
  note t = cover_page_outcomes[OF run]
  from t gi h have ok: "fst ?C = None" by blast
  from t ok p gi
  have "files (snd (snd ?C)) = files new_world @ [(''BusyBooks/Animals/Animals_cover.png'', sample_image)]
      \<and> pages (fst (snd ?C)) = pages ?c @ [current ?c @ [DrawImage sample_image 0 0 612 792 False,
           SetFillColor (Color 1 1 1 (3 / 10)), Rect 0 0 612 792 True False]]"
    by (auto simp: letter_def)
  with p ok show ?thesis by (simp add: new_world_def Canvas_def)
qed

section \<open>The page compositor: properties\<close>

lemma create_busybook_page_cases:
  assumes "create_busybook_page e c img text n = (exc, c')"
  shows "(exc = Some ZeroDivisionError \<and> img_width img = 0
            \<and> c' = c\<lparr>current := current c @ [SetPageSize letter]\<rparr>)
       \<or> (\<exists>err. exc = Some err \<and> 0 < img_width img
            \<and> (text = None \<or> (\<exists>s. text = Some s \<and> \<not> markup_ok e s) \<or> \<not> markup_ok e ''Fun Fact:'')
            \<and> c' = c\<lparr>current := current c @ image_ops img\<rparr>)
       \<or> (\<exists>s. exc = None \<and> 0 < img_width img \<and> text = Some s \<and> markup_ok e s
            \<and> markup_ok e ''Fun Fact:''
            \<and> c' = c\<lparr>pages := pages c @ [current c @ image_ops img @ box_ops e s n],
                      current := []\<rparr>)"
  using assms
  by (auto simp: create_busybook_page_def Let_def letter_def draw_def showPage_def Paragraph_def
       image_ops_def box_ops_def box_height_def
       split: if_splits option.splits sum.splits)

lemma create_busybook_page_pages:
  assumes "create_busybook_page e c img text q = (exc, c')" and "current c = []"
  shows "(pages c' = pages c \<and> exc \<noteq> None)
       \<or> (\<exists>s. exc = None \<and> current c' = []
              \<and> pages c' = pages c @ [image_ops img @ box_ops e s q])"
  using create_busybook_page_cases[OF assms(1)] assms(2) by auto

lemma footer_of_page:
  "create_busybook_page e c img text n = (None, c') \<Longrightarrow>
   last (last (pages c')) = DrawString (fst letter / 2) ((5 / 10) * inch) (''Page '' @ str_int n)"
  by (auto dest!: create_busybook_page_cases simp: box_ops_def)

lemma page_label: "DrawString x y s \<in> set (image_ops img @ box_ops e t q) \<Longrightarrow> s = ''Page '' @ str_int q"
  by (auto simp: image_ops_def box_ops_def)

lemmas run_evals =
  generate_busybook_def create_cover_page_def page_step_def create_busybook_page_def
  generate_image_def generate_text_def Paragraph_def save_def showPage_def draw_def
  fs_evals logger_def Canvas_def letter_def inch_def Let_def
  env_ok_def env_page2_throws_def env_text_throws_def new_world_def sample_body_def
  sample_image_def line_wrap_def header_style_def text_style_def

text \<open>
  Claim C5. For an image of width \<open>W > 0\<close> and height \<open>H\<close>, \<open>create_busybook_page\<close> draws
  the image once, at width 468 (the page width less two inches) and at height
  \<open>468 * (H / W)\<close>, so that drawn height times \<open>W\<close> is drawn width times \<open>H\<close>: both sides of
  the whole image are scaled by the same factor.
\<close>

theorem page_image_scaling:
  assumes "0 < img_width img" and "create_busybook_page e c img text n = (exc, c')"
  shows "\<exists>x y dw dh rest.
           (if exc = None then last (pages c') else current c')
             = current c @ [SetPageSize letter, DrawImage img x y dw dh True] @ rest
         \<and> (\<forall>i x' y' w' h' m. DrawImage i x' y' w' h' m \<notin> set rest)
         \<and> dw = fst letter - 2 * inch \<and> dw = 468
         \<and> dh = dw * (of_nat (img_height img) / of_nat (img_width img))
         \<and> dh * of_nat (img_width img) = dw * of_nat (img_height img)
         \<and> x = inch \<and> y = snd letter - dh - inch"
proof -
  let ?dw = "fst letter - 2 * inch"
  let ?dh = "?dw * (of_nat (img_height img) / of_nat (img_width img))"
  have io: "image_ops img = [SetPageSize letter, DrawImage img inch (snd letter - ?dh - inch) ?dw ?dh True]"
    by (simp add: image_ops_def)
  from create_busybook_page_cases[OF assms(2)] assms(1)
  consider (raised) "exc \<noteq> None" "c' = c\<lparr>current := current c @ image_ops img\<rparr>"
    | (drawn) s where "exc = None"
        "c' = c\<lparr>pages := pages c @ [current c @ image_ops img @ box_ops e s n], current := []\<rparr>"
    by auto
  then obtain rest where r:
     "(if exc = None then last (pages c') else current c') = current c @ image_ops img @ rest"
     "\<forall>i x' y' w' h' m. DrawImage i x' y' w' h' m \<notin> set rest"
  proof cases
    case raised
    then show ?thesis using that[of "[]"] by auto
  next
    case (drawn s)
    then show ?thesis using that[of "box_ops e s n"] by (simp add: box_ops_def)
  qed
  have u: "?dh * of_nat (img_width img) = ?dw * of_nat (img_height img)"
    using assms(1) by simp
  have w: "?dw = 468" by (simp add: letter_def inch_def)
  show ?thesis
    using r io u w
    by (intro exI[of _ inch] exI[of _ "snd letter - ?dh - inch"] exI[of _ ?dw] exI[of _ ?dh]
          exI[of _ rest]) simp
qed

theorem page_image_scaling_witness:
  "0 < img_width tall_image
   \<and> (\<exists>rest. last (pages (snd (create_busybook_page env_ok (Canvas ''Animals_busybook.pdf'' letter)
                                  tall_image (Some ''Sharks have no bones!'') 1)))
        = [SetPageSize letter, DrawImage tall_image 72 (- 216) 468 936 True] @ rest)"
proof -
  let ?c = "Canvas ''Animals_busybook.pdf'' letter"
  let ?P = "create_busybook_page env_ok ?c tall_image (Some ''Sharks have no bones!'') 1"
  have h: "0 < img_width tall_image" by (simp add: tall_image_def)
  have run: "?P = (fst ?P, snd ?P)" by simp
  have ok: "fst ?P = None" by (simp add: run_evals tall_image_def)
  from page_image_scaling[OF h run] ok
  have "\<exists>rest. last (pages (snd ?P))
        = [SetPageSize letter, DrawImage tall_image 72 (- 216) 468 936 True] @ rest"
    by (auto simp: tall_image_def Canvas_def letter_def inch_def)
  with h show ?thesis by simp
qed

text \<open>
  Claim C10. The image is drawn with its top one inch below the top of the page and its
  bottom at \<open>page height - 1 inch - (page width - 2 inches) * (H / W)\<close>, without any check.
  When \<open>H / W\<close> exceeds \<open>(page height - 1 inch) / (page width - 2 inches)\<close> that bottom is
  negative, and on a rendered page the fact box, which has the abscissas of the image and
  its lower edge at one inch, lies across the image.
\<close>

theorem tall_image_overflows:
  assumes "0 < img_width img"
    and "(snd letter - inch) / (fst letter - 2 * inch)
           < of_nat (img_height img) / of_nat (img_width img)"
    and "create_busybook_page e c img text n = (exc, c')"
  shows "\<exists>y dh rest.
           (if exc = None then last (pages c') else current c')
             = current c @ [SetPageSize letter, DrawImage img inch y (fst letter - 2 * inch) dh True]
                 @ rest
         \<and> y = snd letter - inch
                 - (fst letter - 2 * inch) * (of_nat (img_height img) / of_nat (img_width img))
         \<and> y + dh = snd letter - inch
         \<and> y < 0
         \<and> (exc = None \<longrightarrow>
               (\<exists>s. text = Some s
                  \<and> Rect inch inch (fst letter - 2 * inch) (box_height e s) True True \<in> set rest
                  \<and> y < inch \<and> inch < y + dh))"
proof -
  let ?dw = "fst letter - 2 * inch"
  let ?a = "of_nat (img_height img) / of_nat (img_width img) :: rat"
  let ?dh = "?dw * ?a"
  let ?y = "snd letter - inch - ?dh"
  have io: "image_ops img = [SetPageSize letter, DrawImage img inch ?y ?dw ?dh True]"
    by (simp add: image_ops_def algebra_simps)
  have dw: "0 < ?dw" by (simp add: letter_def inch_def)
  from assms(2) dw have "snd letter - inch < ?dw * ?a"
    by (simp add: pos_divide_less_eq mult.commute)
  then have neg: "?y < 0" by simp
  have top: "?y + ?dh = snd letter - inch" by simp
  have mid: "?y < inch \<and> inch < ?y + ?dh" using neg by (simp add: letter_def inch_def)
  from create_busybook_page_cases[OF assms(3)] assms(1)
  consider (raised) "exc \<noteq> None" "c' = c\<lparr>current := current c @ image_ops img\<rparr>"
    | (drawn) s where "exc = None" "text = Some s"
        "c' = c\<lparr>pages := pages c @ [current c @ image_ops img @ box_ops e s n], current := []\<rparr>"
    by auto
  then obtain rest where r:
     "(if exc = None then last (pages c') else current c') = current c @ image_ops img @ rest"
     "exc = None \<longrightarrow> (\<exists>s. text = Some s
         \<and> Rect inch inch (fst letter - 2 * inch) (box_height e s) True True \<in> set rest)"
  proof cases
    case raised
    then show ?thesis using that[of "[]"] by auto
  next
    case (drawn s)
    then show ?thesis using that[of "box_ops e s n"] by (simp add: box_ops_def)
  qed
  show ?thesis
    using r io neg top mid
    by (intro exI[of _ ?y] exI[of _ ?dh] exI[of _ rest]) auto
qed

theorem tall_image_overflows_witness:
  "0 < img_width tall_image
   \<and> (snd letter - inch) / (fst letter - 2 * inch)
        < of_nat (img_height tall_image) / of_nat (img_width tall_image)
   \<and> (\<exists>rest. last (pages (snd (create_busybook_page env_ok (Canvas ''Animals_busybook.pdf'' letter)
                                  tall_image (Some ''Sharks have no bones!'') 1)))
        = [SetPageSize letter, DrawImage tall_image 72 (- 216) 468 936 True] @ rest
        \<and> Rect 72 72 468 (248 / 5) True True \<in> set rest)
   \<and> (- 216 :: rat) < 0"
proof -
  let ?c = "Canvas ''Animals_busybook.pdf'' letter"
  let ?P = "create_busybook_page env_ok ?c tall_image (Some ''Sharks have no bones!'') 1"
  have h1: "0 < img_width tall_image" by (simp add: tall_image_def)
  have h2: "(snd letter - inch) / (fst letter - 2 * inch)
        < of_nat (img_height tall_image) / of_nat (img_width tall_image)"
    by (simp add: tall_image_def letter_def inch_def)
  have run: "?P = (fst ?P, snd ?P)" by simp
  have ok: "fst ?P = None" by (simp add: run_evals tall_image_def)
  have bh: "box_height env_ok ''Sharks have no bones!'' = 248 / 5"
    by (simp add: box_height_def env_ok_def line_wrap_def inch_def)
  from tall_image_overflows[OF h1 h2 run] ok bh
  have "\<exists>rest. last (pages (snd ?P))
        = [SetPageSize letter, DrawImage tall_image 72 (- 216) 468 936 True] @ rest
        \<and> Rect 72 72 468 (248 / 5) True True \<in> set rest"
    by (auto simp: tall_image_def Canvas_def letter_def inch_def)
  with h1 h2 show ?thesis by simp
qed

text \<open>
  The height of the fact box: the wrapped height of the header, the wrapped height of the
  fact and 0.3 inch. It grows with the wrapped height of the fact; what that height is for
  a given text is decided by the paragraph engine.
\<close>

lemma box_height_formula:
  assumes "create_busybook_page e c img (Some s) n = (None, c')"
  shows "Rect inch inch (fst letter - 2 * inch) (box_height e s) True True \<in> set (last (pages c'))"
    and "box_height e s =
           snd (wrap e \<lparr>para_text = ''Fun Fact:'', para_style = header_style\<rparr>
                  (fst letter - (22 / 10) * inch) (snd letter))
           + snd (wrap e \<lparr>para_text = s, para_style = text_style\<rparr>
                  (fst letter - (22 / 10) * inch) (snd letter))
           + (3 / 10) * inch"
  using create_busybook_page_cases[OF assms] by (auto simp: box_ops_def box_height_def)

lemma box_height_mono:
  assumes "snd (wrap e \<lparr>para_text = s, para_style = text_style\<rparr>
                  (fst letter - (22 / 10) * inch) (snd letter))
           \<le> snd (wrap e \<lparr>para_text = t, para_style = text_style\<rparr>
                  (fst letter - (22 / 10) * inch) (snd letter))"
  shows "box_height e s \<le> box_height e t"
  using assms by (simp add: box_height_def)

section \<open>The book assembler: properties\<close>

lemma page_step_cases:
  assumes "page_step e theme tf q (c, w) = (exc, c', w')"
  shows "calls w' = calls w + 2 \<and> pdfs w' = pdfs w \<and>
         ((c' = c \<and> files w' = files w)
          \<or> (\<exists>img text. image_returned e (calls w) img
                \<and> files w' = files w @ [(page_path tf theme q, img)]
                \<and> create_busybook_page e c img text q = (exc, c')))"
proof -
  obtain r w1 where gi: "generate_image e (image_prompt theme q) negative_prompt ''line-art'' w = (r, w1)"
    by (cases "generate_image e (image_prompt theme q) negative_prompt ''line-art'' w")
  obtain t w2 where gt: "generate_text e (text_prompt theme q) w1 = (t, w2)"
    by (cases "generate_text e (text_prompt theme q) w1")
  note f1 = generate_image_frame[OF gi] and f2 = generate_text_frame[OF gt]
  show ?thesis
  proof (cases r)
    case None
    with assms gi gt f1 f2 show ?thesis
      by (auto simp: page_step_def Let_def logger_def)
  next
    case (Some img)
    with gi have "image_returned e (calls w) img"
      using generate_image_Some[of e _ _ _ w img w1] by (simp add: image_returned_def)
    with Some assms gi gt f1 f2 show ?thesis
      by (auto simp: page_step_def Let_def image_save_def page_path_def
            split: prod.splits sum.splits if_splits option.splits)
  qed
qed

lemma page_loop_inv:
  assumes "page_loop e theme tf ps (c, w) = (exc, c', w')" and "current c = []"
  shows "(\<exists>new. pages c' = pages c @ new \<and> length new \<le> length ps
            \<and> (\<forall>pg\<in>set new. \<exists>i<length ps. \<exists>img s.
                  image_returned e (calls w + 2 * i) img
                  \<and> pg = image_ops img @ box_ops e s (ps ! i)))
       \<and> (\<exists>newf. files w' = files w @ newf
            \<and> (\<forall>f\<in>set newf. \<exists>i<length ps.
                  image_returned e (calls w + 2 * i) (snd f)
                  \<and> fst f = page_path tf theme (ps ! i)))
       \<and> pdfs w' = pdfs w
       \<and> (exc = None \<longrightarrow> current c' = [])"
  using assms
proof (induction ps arbitrary: c w)
  case Nil
  then show ?case by simp
next
  case (Cons q rest)
  obtain exc1 c1 w1 where st: "page_step e theme tf q (c, w) = (exc1, c1, w1)"
    by (cases "page_step e theme tf q (c, w)") 
  note sc = page_step_cases[OF st]
  then have calls1: "calls w1 = calls w + 2" and pdfs1: "pdfs w1 = pdfs w" by simp_all
  \<comment> \<open>what the step added\<close>
  have pg1: "\<exists>new1. pages c1 = pages c @ new1 \<and> length new1 \<le> 1
              \<and> (\<forall>pg\<in>set new1. \<exists>img s. image_returned e (calls w) img
                     \<and> pg = image_ops img @ box_ops e s q)
              \<and> (exc1 = None \<longrightarrow> current c1 = [] )"
    using sc Cons.prems(2) by (auto dest!: create_busybook_page_pages) blast
  have fl1: "\<exists>newf1. files w1 = files w @ newf1
              \<and> (\<forall>f\<in>set newf1. image_returned e (calls w) (snd f) \<and> fst f = page_path tf theme q)"
    using sc by auto
  from pg1 obtain new1 where new1: "pages c1 = pages c @ new1" "length new1 \<le> 1"
     "\<forall>pg\<in>set new1. \<exists>img s. image_returned e (calls w) img \<and> pg = image_ops img @ box_ops e s q"
     "exc1 = None \<longrightarrow> current c1 = []" by blast
  from fl1 obtain newf1 where newf1: "files w1 = files w @ newf1"
     "\<forall>f\<in>set newf1. image_returned e (calls w) (snd f) \<and> fst f = page_path tf theme q" by blast
  show ?case
  proof (cases exc1)
    case (Some err)
    with Cons.prems(1) st have eq: "exc = Some err" "c' = c1" "w' = w1" by simp_all
    have "\<forall>pg\<in>set new1. \<exists>i<length (q # rest). \<exists>img s.
             image_returned e (calls w + 2 * i) img \<and> pg = image_ops img @ box_ops e s ((q # rest) ! i)"
      using new1(3) by (intro ballI exI[of _ 0]) auto
    moreover have "\<forall>f\<in>set newf1. \<exists>i<length (q # rest).
             image_returned e (calls w + 2 * i) (snd f) \<and> fst f = page_path tf theme ((q # rest) ! i)"
      using newf1(2) by (intro ballI exI[of _ 0]) auto
    ultimately show ?thesis using eq new1 newf1 pdfs1 by auto
  next
    case None
    with Cons.prems(1) st have lp: "page_loop e theme tf rest (c1, w1) = (exc, c', w')" by simp
    from None new1(4) have cur: "current c1 = []" by simp
    from Cons.IH[OF lp cur] obtain new2 newf2 where
      n2: "pages c' = pages c1 @ new2" "length new2 \<le> length rest"
          "\<forall>pg\<in>set new2. \<exists>i<length rest. \<exists>img s.
              image_returned e (calls w1 + 2 * i) img \<and> pg = image_ops img @ box_ops e s (rest ! i)"
      and f2: "files w' = files w1 @ newf2"
          "\<forall>f\<in>set newf2. \<exists>i<length rest.
              image_returned e (calls w1 + 2 * i) (snd f) \<and> fst f = page_path tf theme (rest ! i)"
      and rest: "pdfs w' = pdfs w1" "exc = None \<longrightarrow> current c' = []" by blast
    have a: "\<forall>pg\<in>set (new1 @ new2). \<exists>i<length (q # rest). \<exists>img s.
             image_returned e (calls w + 2 * i) img \<and> pg = image_ops img @ box_ops e s ((q # rest) ! i)"
    proof
      fix pg assume "pg \<in> set (new1 @ new2)"
      then consider "pg \<in> set new1" | "pg \<in> set new2" by auto
      then show "\<exists>i<length (q # rest). \<exists>img s.
             image_returned e (calls w + 2 * i) img \<and> pg = image_ops img @ box_ops e s ((q # rest) ! i)"
      proof cases
        case 1
        with new1(3) show ?thesis by (intro exI[of _ 0]) auto
      next
        case 2
        with n2(3) obtain i img s where "i < length rest"
          "image_returned e (calls w1 + 2 * i) img" "pg = image_ops img @ box_ops e s (rest ! i)" by blast
        then show ?thesis using calls1 by (intro exI[of _ "Suc i"]) auto
      qed
    qed
    have b: "\<forall>f\<in>set (newf1 @ newf2). \<exists>i<length (q # rest).
             image_returned e (calls w + 2 * i) (snd f) \<and> fst f = page_path tf theme ((q # rest) ! i)"
    proof
      fix f assume "f \<in> set (newf1 @ newf2)"
      then consider "f \<in> set newf1" | "f \<in> set newf2" by auto
      then show "\<exists>i<length (q # rest).
             image_returned e (calls w + 2 * i) (snd f) \<and> fst f = page_path tf theme ((q # rest) ! i)"
      proof cases
        case 1
        with newf1(2) show ?thesis by (intro exI[of _ 0]) auto
      next
        case 2
        with f2(2) obtain i where "i < length rest"
          "image_returned e (calls w1 + 2 * i) (snd f)" "fst f = page_path tf theme (rest ! i)" by blast
        then show ?thesis using calls1 by (intro exI[of _ "Suc i"]) auto
      qed
    qed
    have pe: "pages c' = pages c @ (new1 @ new2)" using new1(1) n2(1) by simp
    have le: "length (new1 @ new2) \<le> length (q # rest)" using new1(2) n2(2) by simp
    have fe: "files w' = files w @ (newf1 @ newf2)" using newf1(1) f2(1) by simp
    have A: "\<exists>new. pages c' = pages c @ new \<and> length new \<le> length (q # rest)
            \<and> (\<forall>pg\<in>set new. \<exists>i<length (q # rest). \<exists>img s.
                  image_returned e (calls w + 2 * i) img
                  \<and> pg = image_ops img @ box_ops e s ((q # rest) ! i))"
      using pe le a by (intro exI[of _ "new1 @ new2"] conjI)
    have B: "\<exists>newf. files w' = files w @ newf
            \<and> (\<forall>f\<in>set newf. \<exists>i<length (q # rest).
                  image_returned e (calls w + 2 * i) (snd f)
                  \<and> fst f = page_path tf theme ((q # rest) ! i))"
      using fe b by (intro exI[of _ "newf1 @ newf2"] conjI)
    from A B rest pdfs1 show ?thesis by simp
  qed
qed

lemma save_sealed:
  assumes "current c = []" and "save e c w = (exc, c', w')"
  shows "c' = c \<and> files w' = files w
   \<and> pdfs w' = pdfs w @ (if exc = None then [(filename c, pages c)] else [])"
proof (cases "open_for_write e w (filename c)")
  case None
  with assms show ?thesis by (auto simp: save_def)
next
  case (Some err)
  with assms have "exc = Some err \<and> c' = c \<and> w' = w" by (simp add: save_def)
  then show ?thesis by simp
qed

lemma page_loop_filename:
  "page_loop e theme tf ps (c, w) = (exc, c', w') \<Longrightarrow> filename c' = filename c"
proof (induction ps arbitrary: c w)
  case Nil then show ?case by simp
next
  case (Cons q rest)
  obtain exc1 c1 w1 where st: "page_step e theme tf q (c, w) = (exc1, c1, w1)"
    by (cases "page_step e theme tf q (c, w)")
  from page_step_cases[OF st] have f: "filename c1 = filename c"
    by (auto dest!: create_busybook_page_cases)
  show ?case
  proof (cases exc1)
    case None
    with Cons.prems st have "page_loop e theme tf rest (c1, w1) = (exc, c', w')" by simp
    from Cons.IH[OF this] f show ?thesis by simp
  next
    case (Some err)
    with Cons.prems st f show ?thesis by simp
  qed
qed

lemma generate_busybook_inv:
  assumes run: "generate_busybook e theme N out w = (exc, c, w')"
  shows "((pages c = [] \<and> exc \<noteq> None)
          \<or> (\<exists>cov new.
                pages c = (cov @ wash) # new
              \<and> (cov = [] \<or> (\<exists>img. image_returned e (calls w) img
                               \<and> cov = [DrawImage img 0 0 (fst letter) (snd letter) False]))
              \<and> length new \<le> nat N
              \<and> (\<forall>pg\<in>set new. \<exists>i<nat N. \<exists>img s.
                    image_returned e (calls w + 1 + 2 * i) img
                    \<and> pg = image_ops img @ box_ops e s (1 + int i))))
       \<and> (\<exists>newf. files w' = files w @ newf
            \<and> (\<forall>f\<in>set newf.
                  fst f = os_path_join (os_path_join out theme) (theme @ ''_cover.png'')
                  \<or> (\<exists>i<nat N. image_returned e (calls w + 1 + 2 * i) (snd f)
                        \<and> fst f = page_path (os_path_join out theme) theme (1 + int i))))
       \<and> pdfs w' = pdfs w @ (if exc = None
                               then [(os_path_join out (theme @ ''_busybook.pdf''), pages c)]
                               else [])"
proof -
  let ?tf = "os_path_join out theme"
  let ?c0 = "Canvas (os_path_join out (theme @ ''_busybook.pdf'')) letter"
  show ?thesis
  proof (cases "makedirs e w ?tf")
    case (Inl err)
    with run have "exc = Some err \<and> c = ?c0 \<and> w' = w"
      by (auto simp: generate_busybook_def Let_def)
    then show ?thesis by (simp add: Canvas_def)
  next
    case (Inr w0)
    then have w0: "calls w0 = calls w" "files w0 = files w" "pdfs w0 = pdfs w"
      by (auto simp: makedirs_def split: option.splits)
    obtain r wi where gi: "generate_image e (cover_prompt theme)
         ''blurry, distorted, texts, words, letters'' ''digital-art'' w0 = (r, wi)"
      by (cases "generate_image e (cover_prompt theme)
         ''blurry, distorted, texts, words, letters'' ''digital-art'' w0")
    obtain exc1 c1 w2 where cov: "create_cover_page e ?c0 theme out w0 = (exc1, c1, w2)"
      by (cases "create_cover_page e ?c0 theme out w0")
    let ?cov = "case r of None \<Rightarrow> []
                | Some img \<Rightarrow> [DrawImage img 0 0 (fst letter) (snd letter) False]"
    let ?covf = "case r of None \<Rightarrow> []
                 | Some img \<Rightarrow> [(os_path_join ?tf (theme @ ''_cover.png''), img)]"
    note cc = create_cover_page_cases[OF cov gi]
    show ?thesis
    proof (cases exc1)
      case (Some err)
      with run Inr cov have "exc = Some err \<and> c = c1 \<and> w' = w2"
        by (auto simp: generate_busybook_def Let_def)
      moreover from Some cc(3) have "c1 = ?c0 \<and> files w2 = files w0" by auto
      ultimately show ?thesis using cc(2) w0 by (simp add: Canvas_def)
    next
      case None
      with cc(3) have c1: "pages c1 = [?cov @ wash]" "current c1 = []"
           "filename c1 = os_path_join out (theme @ ''_busybook.pdf'')"
        and w2f: "files w2 = files w0 @ ?covf"
        by (auto simp: Canvas_def)
      have w2: "files w2 = files w @ ?covf" "calls w2 = calls w + 1" "pdfs w2 = pdfs w"
        using w2f cc(1,2) w0 by simp_all
      obtain exc3 c3 w3 where lp: "page_loop e theme ?tf [1..N] (c1, w2) = (exc3, c3, w3)"
        by (cases "page_loop e theme ?tf [1..N] (c1, w2)")
      from page_loop_inv[OF lp c1(2)] obtain new newf where
        n: "pages c3 = pages c1 @ new" "length new \<le> length [1..N]"
           "\<forall>pg\<in>set new. \<exists>i<length [1..N]. \<exists>img s.
               image_returned e (calls w2 + 2 * i) img
               \<and> pg = image_ops img @ box_ops e s ([1..N] ! i)"
        and f: "files w3 = files w2 @ newf"
           "\<forall>f\<in>set newf. \<exists>i<length [1..N].
               image_returned e (calls w2 + 2 * i) (snd f)
               \<and> fst f = page_path ?tf theme ([1..N] ! i)"
        and o: "pdfs w3 = pdfs w2" "exc3 = None \<longrightarrow> current c3 = []" by blast
      have len: "length [1..N] = nat N" by simp
      have nth: "\<And>i. i < nat N \<Longrightarrow> [1..N] ! i = 1 + int i" by (simp add: nth_upto)
      have fn: "filename c3 = os_path_join out (theme @ ''_busybook.pdf'')"
        using page_loop_filename[OF lp] c1(3) by simp
      have res: "exc3 = None \<longrightarrow> current c3 = []" using o(2) .
      have fin: "c = c3 \<and> files w' = files w3
                 \<and> pdfs w' = pdfs w3 @ (if exc = None then [(filename c3, pages c3)] else [])"
      proof (cases exc3)
        case (Some err)
        with run Inr cov None lp show ?thesis
          by (auto simp: generate_busybook_def Let_def)
      next
        case None3: None
        with o(2) have cur: "current c3 = []" by simp
        obtain exc4 c4 w4 where sv: "save e c3 w3 = (exc4, c4, w4)"
          by (cases "save e c3 w3")
        note ss = save_sealed[OF cur sv]
        from run Inr cov None lp None3 sv have "exc = exc4 \<and> c = c4 \<and> files w' = files w4
             \<and> pdfs w' = pdfs w4"
          by (cases exc4) (auto simp: generate_busybook_def Let_def logger_def)
        with ss show ?thesis by simp
      qed
      have P: "pages c = (?cov @ wash) # new" using fin n(1) c1(1) by simp
      have C: "?cov = [] \<or> (\<exists>img. image_returned e (calls w) img
                          \<and> ?cov = [DrawImage img 0 0 (fst letter) (snd letter) False])"
      proof (cases r)
        case None
        then show ?thesis by simp
      next
        case (Some img)
        with gi have "image_returned e (calls w0) img"
          using generate_image_Some[of e _ _ _ w0 img wi] by (simp add: image_returned_def)
        with Some show ?thesis by (simp add: w0)
      qed
      have L: "length new \<le> nat N" using n(2) len by simp
      have N: "\<forall>pg\<in>set new. \<exists>i<nat N. \<exists>img s.
               image_returned e (calls w + 1 + 2 * i) img
               \<and> pg = image_ops img @ box_ops e s (1 + int i)"
        using n(3) len nth w2(2) by (metis (no_types, lifting))
      have F: "files w' = files w @ (?covf @ newf)" using fin f(1) w2(1) by simp
      have G: "\<forall>f\<in>set (?covf @ newf).
               fst f = os_path_join ?tf (theme @ ''_cover.png'')
               \<or> (\<exists>i<nat N. image_returned e (calls w + 1 + 2 * i) (snd f)
                     \<and> fst f = page_path ?tf theme (1 + int i))"
      proof
        fix x assume "x \<in> set (?covf @ newf)"
        then consider "x \<in> set ?covf" | "x \<in> set newf" by auto
        then show "fst x = os_path_join ?tf (theme @ ''_cover.png'')
               \<or> (\<exists>i<nat N. image_returned e (calls w + 1 + 2 * i) (snd x)
                     \<and> fst x = page_path ?tf theme (1 + int i))"
        proof cases
          case 1 then show ?thesis by (cases r) auto
        next
          case 2
          with f(2) obtain i where "i < length [1..N]"
            "image_returned e (calls w2 + 2 * i) (snd x)"
            "fst x = page_path ?tf theme ([1..N] ! i)"
            by blast
          then show ?thesis using len nth w2(2) by auto
        qed
      qed
      have D: "pdfs w' = pdfs w @ (if exc = None
                                 then [(os_path_join out (theme @ ''_busybook.pdf''), pages c)]
                                 else [])"
        using fin o(1) w2(3) fn by simp
      have X: "\<exists>cov new.
                pages c = (cov @ wash) # new
              \<and> (cov = [] \<or> (\<exists>img. image_returned e (calls w) img
                               \<and> cov = [DrawImage img 0 0 (fst letter) (snd letter) False]))
              \<and> length new \<le> nat N
              \<and> (\<forall>pg\<in>set new. \<exists>i<nat N. \<exists>img s.
                    image_returned e (calls w + 1 + 2 * i) img
                    \<and> pg = image_ops img @ box_ops e s (1 + int i))"
        using P C L N by (intro exI[of _ ?cov] exI[of _ new] conjI)
      have Y: "\<exists>newf. files w' = files w @ newf
            \<and> (\<forall>f\<in>set newf.
                  fst f = os_path_join (os_path_join out theme) (theme @ ''_cover.png'')
                  \<or> (\<exists>i<nat N. image_returned e (calls w + 1 + 2 * i) (snd f)
                        \<and> fst f = page_path (os_path_join out theme) theme (1 + int i)))"
        using F G by (intro exI[of _ "?covf @ newf"] conjI)
      from X Y D show ?thesis by simp
    qed
  qed
qed

lemma wash_no_label:
  "cov = [] \<or> (\<exists>img. P img \<and> cov = [DrawImage img a b c d m]) \<Longrightarrow>
   DrawString x y s \<notin> set (cov @ wash)"
  by (auto simp: wash_def)



text \<open>
  Claim C3. Let the image call of page \<open>p\<close> (the call number \<open>2 * p - 1\<close> of the run, the
  cover being call 0) throw or return no artifacts. Then \<open>generate_image\<close> returns \<open>None\<close>
  at that call, no page of the document carries the footer of page \<open>p\<close>, and no file
  written by the run has the path of the image of page \<open>p\<close>.
\<close>

theorem failed_image_skips_page:
  assumes "1 \<le> p" and "p \<le> N"
    and fails: "\<forall>req. image_fails (bedrock e (calls w + nat (2 * p - 1)) req)"
    and run: "generate_busybook e theme N out w = (exc, c, w')"
  shows "(\<forall>prompt neg style w1. calls w1 = calls w + nat (2 * p - 1) \<longrightarrow>
            fst (generate_image e prompt neg style w1) = None)
       \<and> (\<forall>pg\<in>set (pages c). \<forall>x y. DrawString x y (''Page '' @ str_int p) \<notin> set pg)
       \<and> (\<forall>f\<in>set (drop (length (files w)) (files w')).
            fst f \<noteq> page_path (os_path_join out theme) theme p)"
proof -
  note inv = generate_busybook_inv[OF run]
  from inv obtain newf where
        f: "files w' = files w @ newf"
    and g: "\<forall>f\<in>set newf.
               fst f = os_path_join (os_path_join out theme) (theme @ ''_cover.png'')
               \<or> (\<exists>i<nat N. image_returned e (calls w + 1 + 2 * i) (snd f)
                     \<and> fst f = page_path (os_path_join out theme) theme (1 + int i))"
    by blast
  have idx: "\<And>i. p = 1 + int i \<Longrightarrow> calls w + nat (2 * p - 1) = calls w + 1 + 2 * i" by simp
  have A: "\<forall>prompt neg style w1. calls w1 = calls w + nat (2 * p - 1) \<longrightarrow>
            fst (generate_image e prompt neg style w1) = None"
    using fails generate_image_fails by simp
  have B: "\<forall>pg\<in>set (pages c). \<forall>x y. DrawString x y (''Page '' @ str_int p) \<notin> set pg"
  proof (intro ballI allI notI)
    fix pg x y
    assume pg: "pg \<in> set (pages c)" and m: "DrawString x y (''Page '' @ str_int p) \<in> set pg"
    from pg have "pages c \<noteq> []" by auto
    with inv obtain cov new where
          p: "pages c = (cov @ wash) # new"
      and cv: "cov = [] \<or> (\<exists>img. image_returned e (calls w) img
                   \<and> cov = [DrawImage img 0 0 (fst letter) (snd letter) False])"
      and n: "\<forall>pg\<in>set new. \<exists>i<nat N. \<exists>img s.
                 image_returned e (calls w + 1 + 2 * i) img
                 \<and> pg = image_ops img @ box_ops e s (1 + int i)"
      by blast
    from pg p consider "pg = cov @ wash" | "pg \<in> set new" by auto
    then show False
    proof cases
      case 1
      with m wash_no_label[OF cv] show False by simp
    next
      case 2
      with n obtain i img s where i: "image_returned e (calls w + 1 + 2 * i) img"
        "pg = image_ops img @ box_ops e s (1 + int i)" by blast
      from m i(2) have "DrawString x y (''Page '' @ str_int p)
                          \<in> set (image_ops img @ box_ops e s (1 + int i))" by simp
      then have "''Page '' @ str_int p = ''Page '' @ str_int (1 + int i)"
        by (rule page_label)
      then have "p = 1 + int i" using assms(1) by (intro label_inj) simp_all
      from idx[OF this] i(1) fails show False
        using image_returned_not_fails by metis
    qed
  qed
  have C: "\<forall>f\<in>set (drop (length (files w)) (files w')).
            fst f \<noteq> page_path (os_path_join out theme) theme p"
  proof (intro ballI notI)
    fix x
    assume "x \<in> set (drop (length (files w)) (files w'))"
       and e: "fst x = page_path (os_path_join out theme) theme p"
    with f have "x \<in> set newf" by simp
    with g consider "fst x = os_path_join (os_path_join out theme) (theme @ ''_cover.png'')"
      | i where "image_returned e (calls w + 1 + 2 * i) (snd x)"
                "fst x = page_path (os_path_join out theme) theme (1 + int i)" by blast
    then show False
    proof cases
      case 1
      with e cover_path_not_page show False by metis
    next
      case 2
      with e have "page_path (os_path_join out theme) theme p
                  = page_path (os_path_join out theme) theme (1 + int i)" by simp
      then have "p = 1 + int i" using assms(1) by (intro page_path_inj) simp_all
      from idx[OF this] 2(1) fails show False
        using image_returned_not_fails by metis
    qed
  qed
  from A B C show ?thesis by simp
qed

theorem failed_image_skips_page_witness:
  "(1::int) \<le> 2 \<and> (2::int) \<le> 3
   \<and> (\<forall>req. image_fails (bedrock env_page2_throws (calls new_world + nat (2 * 2 - 1)) req))
   \<and> (\<forall>x y. DrawString x y ''Page 2''
            \<notin> set (concat (pages (fst (snd (generate_busybook env_page2_throws
                                                  ''Jungle Adventure'' 3 ''BusyBooks'' new_world))))))
   \<and> map fst (files (snd (snd (generate_busybook env_page2_throws ''Jungle Adventure'' 3
                                  ''BusyBooks'' new_world))))
       = [''BusyBooks/Jungle Adventure/Jungle Adventure_cover.png'',
          ''BusyBooks/Jungle Adventure/Jungle Adventure_page_1.png'',
          ''BusyBooks/Jungle Adventure/Jungle Adventure_page_3.png'']"
proof -
  let ?R = "generate_busybook env_page2_throws ''Jungle Adventure'' 3 ''BusyBooks'' new_world"
  have h1: "(1::int) \<le> 2" and h2: "(2::int) \<le> 3" by simp_all
  have h3: "\<forall>req. image_fails (bedrock env_page2_throws (calls new_world + nat (2 * 2 - 1)) req)"
    by (simp add: env_page2_throws_def env_ok_def new_world_def image_fails_def)
  have run: "?R = (fst ?R, fst (snd ?R), snd (snd ?R))" by simp
  from failed_image_skips_page[OF h1 h2 h3 run]
  have a: "\<forall>x y. DrawString x y ''Page 2'' \<notin> set (concat (pages (fst (snd ?R))))"
    by (auto simp: str_int_small)
  have f: "map fst (files (snd (snd ?R)))
       = [''BusyBooks/Jungle Adventure/Jungle Adventure_cover.png'',
          ''BusyBooks/Jungle Adventure/Jungle Adventure_page_1.png'',
          ''BusyBooks/Jungle Adventure/Jungle Adventure_page_3.png'']"
    by (simp add: run_evals upto_1_3 os_path_join_def str_int_small)
  from h1 h2 h3 a f show ?thesis by simp
qed

text \<open>
  Claim C1 says that no failure of a service call ends the run, and that a page whose text
  is \<open>None\<close> is still rendered. In the scenario where the text model throws at every call,
  \<open>generate_text\<close> returns \<open>None\<close>, the image of page 1 is saved, and the run of one page
  ends with the \<open>AttributeError\<close> raised by the constructor of the fact paragraph: the
  cover is the only sealed page and no PDF file is written. With the service that answers
  every call, the same run ends without exception and has its two pages.
\<close>

theorem text_failure_aborts_run:
  "fst (generate_busybook env_text_throws ''Animals'' 1 ''BusyBooks'' new_world) = Some AttributeError
   \<and> pdfs (snd (snd (generate_busybook env_text_throws ''Animals'' 1 ''BusyBooks'' new_world))) = []
   \<and> length (pages (fst (snd (generate_busybook env_text_throws ''Animals'' 1 ''BusyBooks'' new_world)))) = 1
   \<and> map fst (files (snd (snd (generate_busybook env_text_throws ''Animals'' 1 ''BusyBooks'' new_world))))
       = [''BusyBooks/Animals/Animals_cover.png'', ''BusyBooks/Animals/Animals_page_1.png'']
   \<and> fst (generate_text env_text_throws (text_prompt ''Animals'' 1) new_world) = None
   \<and> fst (generate_busybook env_ok ''Animals'' 1 ''BusyBooks'' new_world) = None
   \<and> length (pages (fst (snd (generate_busybook env_ok ''Animals'' 1 ''BusyBooks'' new_world)))) = 2"
  by (simp add: run_evals upto_1_1 os_path_join_def str_int_small text_prompt_def)

text \<open>
  Claim C7 says that the footer is centred on the page and that its label is the index of
  the loop. In the scenario where the image of page 2 throws, the document has three
  pages, and the last drawing call of its third page is the footer \<open>Page 3\<close>, the index of
  the loop, at ordinate 36. The call is \<open>drawString\<close> at half the page width: the text starts
  at the middle of the page and extends to the right of it by its whole width.
\<close>

theorem footer_left_anchored:
  "length (pages (fst (snd (generate_busybook env_page2_throws ''Jungle Adventure'' 3
                              ''BusyBooks'' new_world)))) = 3
   \<and> last (pages (fst (snd (generate_busybook env_page2_throws ''Jungle Adventure'' 3
                                ''BusyBooks'' new_world))) ! 1)
       = DrawString 306 36 ''Page 1''
   \<and> last (pages (fst (snd (generate_busybook env_page2_throws ''Jungle Adventure'' 3
                                ''BusyBooks'' new_world))) ! 2)
       = DrawString 306 36 ''Page 3''
   \<and> fst letter / 2 = 306
   \<and> (\<forall>stringWidth. drawString_span stringWidth (DrawString 306 36 ''Page 3'')
          = Some (306, 306 + stringWidth ''Page 3''))"
  by (simp add: run_evals upto_1_3 os_path_join_def str_int_small text_evals
        drawString_span_def)

end
